theory Spec2Isabelle
  imports Main "HOL-Library.Sublist"
begin

section \<open>Search result component\<close>

text \<open>
  The component under study is the search result list of the documentation theme
  (\<^verbatim>\<open>components/Material/Search/Result.jsx\<close>), which queries an Elasticsearch index in
  two stages and paints the hits lazily. The sources hold three successive variants of
  the class; the model follows the latest one, the first in \<^verbatim>\<open>Result.jsx\<close>, which issues
  the stage-1 query through \<^verbatim>\<open>performElasticSearchQuery\<close>. The function \<^verbatim>\<open>truncate\<close>, the
  aggregation and both drain loops read the same in the variant before it.

  JavaScript strings are modelled as \<^typ>\<open>string\<close>, one \<^typ>\<open>char\<close> per code unit;
  JavaScript numbers that index strings are modelled as \<^typ>\<open>int\<close>, so that the decrement
  below zero in \<^verbatim>\<open>truncate\<close> is visible. A value that may be \<^verbatim>\<open>undefined\<close> has an option
  type, with \<open>None\<close> for \<^verbatim>\<open>undefined\<close>.
\<close>

section \<open>Data of the search component\<close>

subsection \<open>Exceptions\<close>

text \<open>
  \<open>TypeError\<close> and \<open>ReferenceError\<close> are the exceptions the component itself can raise;
  \<open>QueryFailed\<close> stands for the rejection with which the engine client reports a failed
  query.
\<close>

datatype error = TypeError | ReferenceError | QueryFailed

subsection \<open>Engine responses\<close>

text \<open>
  The \<^verbatim>\<open>highlight\<close> object of a hit. Each field is an array of fragments when the engine
  matched it and is absent (\<open>None\<close>) otherwise; an array is truthy even when empty.
\<close>

record highlight =
  hl_title :: "string list option"
  hl_text :: "string list option"

text \<open>A stage-1 hit: \<^verbatim>\<open>_id\<close>, \<^verbatim>\<open>_source.title\<close>, \<^verbatim>\<open>_source.location\<close>, \<^verbatim>\<open>highlight\<close>.\<close>

record doc_hit =
  hit_id :: string
  source_title :: string
  source_location :: string
  hit_highlight :: "highlight option"

text \<open>A stage-2 hit: \<^verbatim>\<open>_source.title\<close>, \<^verbatim>\<open>_source.location\<close>, \<^verbatim>\<open>_source.text\<close>, \<^verbatim>\<open>highlight\<close>.\<close>

record sec_hit =
  sec_title :: string
  sec_location :: string
  sec_text :: string
  sec_highlight :: "highlight option"

text \<open>The stage-1 response: \<^verbatim>\<open>response.hits.hits\<close> and \<^verbatim>\<open>response.hits.total.value\<close>.\<close>

record search_response =
  hits :: "doc_hit list"
  total :: nat

text \<open>\<^verbatim>\<open>fragments[0]\<close>: the first fragment, or \<^verbatim>\<open>undefined\<close> (\<open>None\<close>) for an empty array.\<close>

definition first_fragment :: "string list \<Rightarrow> string option" where
  "first_fragment xs = (case xs of [] \<Rightarrow> None | x # _ \<Rightarrow> Some x)"

text \<open>Truthiness of a value that is a string or \<^verbatim>\<open>undefined\<close>.\<close>

definition truthy :: "string option \<Rightarrow> bool" where
  "truthy v = (case v of None \<Rightarrow> False | Some s \<Rightarrow> s \<noteq> [])"

subsection \<open>Queries\<close>

text \<open>
  \<^verbatim>\<open>buildElasticSearchQuery\<close>. The fixed parts of the body (source fields, the
  \<^verbatim>\<open>parent_document\<close> filter, highlight tags) are constants of the source; the record keeps
  the parts that vary or that the specification names: size, query text and the two boosts.
\<close>

record doc_query =
  dq_size :: nat
  dq_query :: string
  dq_title_boost :: nat
  dq_text_boost :: nat

definition buildElasticSearchQuery :: "string \<Rightarrow> doc_query" where
  "buildElasticSearchQuery query_value =
     \<lparr>dq_size = 50, dq_query = query_value, dq_title_boost = 5, dq_text_boost = 3\<rparr>"

text \<open>
  The section query built for one stage-1 hit. Its query text is \<^verbatim>\<open>outer_this.value_\<close> as
  read when the stage-1 callback runs.
\<close>

record section_query =
  sq_size :: nat
  sq_parent_id :: string
  sq_query :: "string option"
  sq_title_boost :: nat
  sq_text_boost :: nat

text \<open>The entries pushed on \<^verbatim>\<open>msearch_body\<close>: an index header, then the query body.\<close>

datatype msearch_line = Header string | Body section_query

subsection \<open>Rendered nodes\<close>

text \<open>The anchor element that a section renderer appends to its article.\<close>

record section_node =
  sn_href :: string
  sn_title :: string
  sn_heading :: "string option"
  sn_teaser :: string

text \<open>
  The list item created for a document. \<open>an_teaser = None\<close> means that no teaser paragraph
  is rendered. \<open>an_sections\<close> are the anchors appended so far.
\<close>

record article_node =
  an_href :: string
  an_title :: string
  an_heading :: "string option"
  an_teaser :: "string option"
  an_sections :: "section_node list"

subsection \<open>Render units\<close>

text \<open>
  The closures pushed on \<^verbatim>\<open>stack_\<close>. A document unit captures its article; a section unit
  captures the article and the section hit. Articles are mutable objects shared between
  a document unit and its section units, so a unit holds the address of its article in the
  store \<open>articles\<close> below. The first argument of each constructor names the stage-2
  completion that created the closure (the closure's captured \<^verbatim>\<open>result\<close> array); no
  operation reads it.
\<close>

datatype render_unit =
  DocumentUnit nat nat
| SectionUnit nat nat sec_hit

fun unit_search :: "render_unit \<Rightarrow> nat" where
  "unit_search (DocumentUnit g a) = g"
| "unit_search (SectionUnit g a h) = g"

fun unit_article :: "render_unit \<Rightarrow> nat" where
  "unit_article (DocumentUnit g a) = a"
| "unit_article (SectionUnit g a h) = a"

fun is_document :: "render_unit \<Rightarrow> bool" where
  "is_document (DocumentUnit g a) = True"
| "is_document (SectionUnit g a h) = False"

subsection \<open>Component state\<close>

datatype log_entry =
  SearchErrorLogged string
| MsearchErrorLogged error

text \<open>
  The mutable fields of a \<^verbatim>\<open>Result\<close> instance and of the nodes it owns. Field
  \<open>this_x\<close> stands for \<^verbatim>\<open>this.x_\<close>.
  \<^item> \<open>this_value\<close> and \<open>this_stack\<close> are \<^verbatim>\<open>undefined\<close> (\<open>None\<close>) until first assigned: the
    constructor sets neither.
  \<^item> \<open>this_meta\<close> is \<^verbatim>\<open>meta_.textContent\<close>; \<open>this_list\<close> is the child list of \<^verbatim>\<open>list_\<close>, as
    addresses into \<open>articles\<close>.
  \<^item> \<open>scroll_bound\<close> records that the scroll listener has been attached.
  \<^item> \<open>console\<close> collects what was written with \<^verbatim>\<open>console.error\<close>.
  \<^item> \<open>executed\<close> is a history variable: the render units executed so far, in order.
\<close>

record result_state =
  this_initialized :: bool
  this_value :: "string option"
  this_stack :: "render_unit list option"
  this_meta :: string
  this_list :: "nat list"
  articles :: "article_node list"
  scroll_bound :: bool
  console :: "log_entry list"
  executed :: "render_unit list"

text \<open>
  What the constructor fixes: base url, index name, the four messages, whether
  \<^verbatim>\<open>el_.parentNode\<close> is an \<^verbatim>\<open>HTMLElement\<close>, and the binding of the free identifier
  \<^verbatim>\<open>error\<close> that the stage-1 callback reads (\<open>None\<close>: unbound, as in a page that defines no
  such global; \<open>Some v\<close>: bound, with string conversion \<open>v\<close>).
\<close>

record config =
  base_url :: string
  es_index_name :: string
  msg_placeholder :: string
  msg_none :: string
  msg_one :: string
  msg_other :: string
  container_is_element :: bool
  global_error :: "string option"

text \<open>The state a constructor call leaves behind.\<close>

definition initial_state :: "config \<Rightarrow> result_state" where
  "initial_state cfg =
     \<lparr>this_initialized = False, this_value = None, this_stack = None,
      this_meta = msg_placeholder cfg, this_list = [], articles = [],
      scroll_bound = False, console = [], executed = []\<rparr>"

text \<open>
  The outcome of a handler: it returns, or it throws; in both cases the state is the one
  its assignments have produced so far.
\<close>

datatype outcome = Done (final: result_state) | Threw error (final: result_state)

fun threw :: "outcome \<Rightarrow> bool" where
  "threw (Done st) = False"
| "threw (Threw e st) = True"

text \<open>\<^verbatim>\<open>stack_\<close> read as a list, empty when still undefined.\<close>

definition pending :: "result_state \<Rightarrow> render_unit list" where
  "pending st = (case this_stack st of None \<Rightarrow> [] | Some q \<Rightarrow> q)"

subsection \<open>Input events\<close>

text \<open>
  The event passed to \<^verbatim>\<open>update\<close>: its type, and its target, which is \<open>Some v\<close> for an
  \<^verbatim>\<open>HTMLInputElement\<close> whose value is \<open>v\<close> and \<open>None\<close> for anything else.
\<close>

datatype event_type = Focus | Keyup | OtherEvent

record event =
  ev_type :: event_type
  ev_target :: "string option"

subsection \<open>Container geometry\<close>

text \<open>
  \<^verbatim>\<open>container.offsetHeight\<close> and \<^verbatim>\<open>container.scrollHeight\<close> are computed by the browser
  from what is attached to the result list. They are parameters of the model: functions
  of the painted articles.
\<close>

record layout =
  offsetHeight :: "article_node list \<Rightarrow> int"
  scrollHeight :: "article_node list \<Rightarrow> int"

text \<open>
  The articles attached to the result list, in order. An address enters \<open>this_list\<close>
  when a document unit is executed, and the article of a unit exists from the moment the
  unit is created.
\<close>

definition painted :: "result_state \<Rightarrow> article_node list" where
  "painted st = map (\<lambda>a. articles st ! a) (this_list st)"

text \<open>The eager test \<^verbatim>\<open>container.offsetHeight >= container.scrollHeight - 16\<close>.\<close>

definition has_room :: "layout \<Rightarrow> result_state \<Rightarrow> bool" where
  "has_room L st = (offsetHeight L (painted st) \<ge> scrollHeight L (painted st) - 16)"

text \<open>
  The lazy test
  \<^verbatim>\<open>container.scrollTop + container.offsetHeight >= container.scrollHeight - 16\<close>.
\<close>

definition near_bottom :: "layout \<Rightarrow> int \<Rightarrow> result_state \<Rightarrow> bool" where
  "near_bottom L scrollTop st =
     (scrollTop + offsetHeight L (painted st) \<ge> scrollHeight L (painted st) - 16)"

section \<open>Operations\<close>

subsection \<open>String primitives\<close>

text \<open>\<^verbatim>\<open>string[i]\<close>: the code unit at index \<open>i\<close>, or \<^verbatim>\<open>undefined\<close> (\<open>None\<close>) outside the string.\<close>

definition char_at :: "string \<Rightarrow> int \<Rightarrow> char option" where
  "char_at s i = (if 0 \<le> i \<and> i < int (length s) then Some (s ! nat i) else None)"

text \<open>\<^verbatim>\<open>string.substring(0, i)\<close>: a negative end counts as 0, an end beyond the string as its length.\<close>

definition substring0 :: "string \<Rightarrow> int \<Rightarrow> string" where
  "substring0 s i = take (nat i) s"

subsection \<open>truncate\<close>

text \<open>
  The loop \<^verbatim>\<open>while (string[i] !== " " && --i > 0);\<close> of \<^verbatim>\<open>truncate\<close>. It returns the value
  of \<open>i\<close> on exit: the index of the space it stopped at, or the value that failed the
  test \<^verbatim>\<open>--i > 0\<close>.
\<close>

function truncate_scan :: "string \<Rightarrow> int \<Rightarrow> int" where
  "truncate_scan s i =
     (if char_at s i \<noteq> Some CHR '' ''
      then (if i - 1 > 0 then truncate_scan s (i - 1) else i - 1)
      else i)"
  by pat_completeness auto
termination
  by (relation "measure (\<lambda>(s, i). nat i)") auto

definition truncate :: "string \<Rightarrow> int \<Rightarrow> string" where
  "truncate s n =
     (if int (length s) > n then substring0 s (truncate_scan s n) @ ''...'' else s)"

subsection \<open>Input handling: update\<close>

text \<open>
  \<^verbatim>\<open>update(ev)\<close> up to the call of \<^verbatim>\<open>performElasticSearchQuery\<close>. The second component is
  the stage-1 query handed to the engine client, if any. The first branch creates the
  client, checks the container, attaches the scroll listener and sets \<^verbatim>\<open>initialized_\<close>;
  the client handle itself is not part of the state, since a query is dispatched only
  when \<^verbatim>\<open>initialized_\<close> is set. The second branch clears the list before it looks at
  the new value.
\<close>

definition update :: "config \<Rightarrow> event \<Rightarrow> result_state \<Rightarrow> outcome \<times> doc_query option" where
  "update cfg ev st =
     (if ev_type ev = Focus \<and> \<not> this_initialized st then
        (if \<not> container_is_element cfg then (Threw ReferenceError st, None)
         else (Done (st\<lparr>scroll_bound := True, this_initialized := True\<rparr>), None))
      else if ev_type ev = Focus \<or> ev_type ev = Keyup then
        (case ev_target ev of
           None \<Rightarrow> (Threw ReferenceError st, None)
         | Some v \<Rightarrow>
             if \<not> this_initialized st \<or> Some v = this_value st then (Done st, None)
             else
               (let st1 = st\<lparr>this_list := [], this_value := Some v\<rparr>
                in if length v = 0
                   then (Done (st1\<lparr>this_meta := msg_placeholder cfg\<rparr>), None)
                   else (Done st1, Some (buildElasticSearchQuery v))))
      else (Done st, None))"

subsection \<open>Stage-1 completion\<close>

text \<open>
  The size hint of a section query: the number of highlighted fragments of the hit.
\<close>

definition fragment_count :: "highlight \<Rightarrow> nat" where
  "fragment_count h =
     (case hl_title h of None \<Rightarrow> 0 | Some t \<Rightarrow> length t)
     + (case hl_text h of None \<Rightarrow> 0 | Some t \<Rightarrow> length t)"

text \<open>
  \<^verbatim>\<open>result.forEach((hit) => ...)\<close>, which fills \<^verbatim>\<open>msearch_body\<close>. Reading
  \<^verbatim>\<open>hit.highlight.title\<close> throws a \<open>TypeError\<close> when the hit has no \<^verbatim>\<open>highlight\<close>; the
  array built so far is local to the callback and is lost with it.
\<close>

fun build_msearch :: "string \<Rightarrow> string option \<Rightarrow> doc_hit list \<Rightarrow> error + msearch_line list" where
  "build_msearch idx v [] = Inr []"
| "build_msearch idx v (hit # rest) =
     (case hit_highlight hit of
        None \<Rightarrow> Inl TypeError
      | Some h \<Rightarrow>
          (case build_msearch idx v rest of
             Inl e \<Rightarrow> Inl e
           | Inr ls \<Rightarrow>
               Inr (Header idx
                    # Body \<lparr>sq_size = fragment_count h, sq_parent_id = hit_id hit,
                             sq_query = v, sq_title_boost = 5, sq_text_boost = 3\<rparr>
                    # ls)))"

text \<open>Decimal digits of a count, as \<^verbatim>\<open>String.prototype.replace\<close> converts its argument.\<close>

fun decimal :: "nat \<Rightarrow> string" where
  "decimal n =
     (if n < 10 then [char_of (48 + n)]
      else decimal (n div 10) @ [char_of (48 + n mod 10)])"

text \<open>\<^verbatim>\<open>s.replace("#", r)\<close>: the first \<^verbatim>\<open>#\<close> only.\<close>

fun replace_hash :: "string \<Rightarrow> string \<Rightarrow> string" where
  "replace_hash r [] = []"
| "replace_hash r (c # cs) = (if c = CHR ''#'' then r @ cs else c # replace_hash r cs)"

text \<open>The \<^verbatim>\<open>switch (total_results)\<close> that selects the metadata text.\<close>

definition result_message :: "config \<Rightarrow> nat \<Rightarrow> string" where
  "result_message cfg n =
     (if n = 0 then msg_none cfg
      else if n = 1 then msg_one cfg
      else replace_hash (decimal n) (msg_other cfg))"

text \<open>
  The callback given to \<^verbatim>\<open>performElasticSearchQuery\<close>, called with an error or with a
  response. The second component is the body handed to \<^verbatim>\<open>msearch\<close>, if the call is made.

  In the error branch the message is built from the identifier \<^verbatim>\<open>error\<close>, which is not
  the callback's parameter \<^verbatim>\<open>err\<close>: evaluating it throws a \<open>ReferenceError\<close> unless the
  page binds it.

  In the success branch the stack is reset first; the metadata text is written after the
  stage-2 call has been issued.
\<close>

definition stage1_callback ::
  "config \<Rightarrow> error + search_response \<Rightarrow> result_state \<Rightarrow> outcome \<times> msearch_line list option" where
  "stage1_callback cfg r st =
     (case r of
        Inl err \<Rightarrow>
          (case global_error cfg of
             None \<Rightarrow> (Threw ReferenceError st, None)
           | Some v \<Rightarrow>
               (Done (st\<lparr>console := console st
                          @ [SearchErrorLogged (''Error during elastic search query: '' @ v)]\<rparr>),
                None))
      | Inr response \<Rightarrow>
          (let st1 = st\<lparr>this_stack := Some []\<rparr>
           in case build_msearch (es_index_name cfg) (this_value st1) (hits response) of
                Inl e \<Rightarrow> (Threw e st1, None)
              | Inr msearch_body \<Rightarrow>
                  (Done (st1\<lparr>this_meta := result_message cfg (total response)\<rparr>),
                   if length msearch_body > 0 then Some msearch_body else None)))"

text \<open>
  The completion of \<^verbatim>\<open>performElasticSearchQuery\<close>: the callback is called inside the
  \<^verbatim>\<open>try\<close> block, so an exception it throws on a response is caught and the callback is
  called a second time, with that exception as its error.
\<close>

definition performElasticSearchQuery ::
  "config \<Rightarrow> error + search_response \<Rightarrow> result_state \<Rightarrow> outcome \<times> msearch_line list option" where
  "performElasticSearchQuery cfg r st =
     (case r of
        Inl err \<Rightarrow> stage1_callback cfg (Inl err) st
      | Inr response \<Rightarrow>
          (case stage1_callback cfg (Inr response) st of
             (Done st', m) \<Rightarrow> (Done st', m)
           | (Threw e st', m) \<Rightarrow> (fst (stage1_callback cfg (Inl e) st'), m)))"

subsection \<open>Executing render units\<close>

text \<open>
  The body of a section renderer up to \<^verbatim>\<open>article.appendChild\<close>: it reads
  \<^verbatim>\<open>hit.highlight.title\<close> (a \<open>TypeError\<close> without \<^verbatim>\<open>highlight\<close>) and truncates the text to
  200, which reads \<^verbatim>\<open>string.length\<close> (a \<open>TypeError\<close> when the text is \<^verbatim>\<open>undefined\<close>).
\<close>

definition render_section :: "config \<Rightarrow> sec_hit \<Rightarrow> error + section_node" where
  "render_section cfg hit =
     (case sec_highlight hit of
        None \<Rightarrow> Inl TypeError
      | Some h \<Rightarrow>
          (let title_str = (case hl_title h of None \<Rightarrow> Some (sec_title hit)
                                             | Some t \<Rightarrow> first_fragment t);
               text_str = (case hl_text h of None \<Rightarrow> Some (sec_text hit)
                                           | Some t \<Rightarrow> first_fragment t)
           in case text_str of
                None \<Rightarrow> Inl TypeError
              | Some txt \<Rightarrow>
                  Inr \<lparr>sn_href = base_url cfg @ ''/'' @ sec_location hit,
                       sn_title = sec_title hit,
                       sn_heading = title_str,
                       sn_teaser = truncate txt 200\<rparr>))"

text \<open>\<^verbatim>\<open>appendChild\<close> on the result list: a node that is already a child moves to the end.\<close>

definition appendChild :: "nat \<Rightarrow> nat list \<Rightarrow> nat list" where
  "appendChild a children = removeAll a children @ [a]"

text \<open>
  Calling a render unit. A document unit appends its article to the result list; a section
  unit appends a new anchor to its article, attached or not. A unit that returns is
  recorded in \<open>executed\<close>.
\<close>

fun exec_unit :: "config \<Rightarrow> render_unit \<Rightarrow> result_state \<Rightarrow> outcome" where
  "exec_unit cfg (DocumentUnit g a) st =
     Done (st\<lparr>this_list := appendChild a (this_list st),
               executed := executed st @ [DocumentUnit g a]\<rparr>)"
| "exec_unit cfg (SectionUnit g a hit) st =
     (case render_section cfg hit of
        Inl e \<Rightarrow> Threw e st
      | Inr node \<Rightarrow>
          Done (st\<lparr>articles := (articles st)
                      [a := (articles st ! a)\<lparr>an_sections := an_sections (articles st ! a) @ [node]\<rparr>],
                    executed := executed st @ [SectionUnit g a hit]\<rparr>))"

text \<open>\<^verbatim>\<open>units.forEach(render => render())\<close>: an exception ends the iteration.\<close>

fun forEach_render :: "config \<Rightarrow> render_unit list \<Rightarrow> result_state \<Rightarrow> outcome" where
  "forEach_render cfg [] st = Done st"
| "forEach_render cfg (u # us) st =
     (case exec_unit cfg u st of
        Threw e st' \<Rightarrow> Threw e st'
      | Done st' \<Rightarrow> forEach_render cfg us st')"

subsection \<open>Draining the stack\<close>

text \<open>
  The eager drain that ends the stage-2 callback:
  \<^verbatim>\<open>while (stack_.length && container.offsetHeight >= container.scrollHeight - 16)
    (stack_.shift())()\<close>.
  The head is removed before it is called. Reading \<^verbatim>\<open>stack_.length\<close> throws when the
  stack is still undefined.
\<close>

function eager_drain :: "config \<Rightarrow> layout \<Rightarrow> result_state \<Rightarrow> outcome" where
  "eager_drain cfg L st =
     (case this_stack st of
        None \<Rightarrow> Threw TypeError st
      | Some [] \<Rightarrow> Done st
      | Some (u # us) \<Rightarrow>
          if has_room L st
          then (case exec_unit cfg u (st\<lparr>this_stack := Some us\<rparr>) of
                  Threw e st' \<Rightarrow> Threw e st'
                | Done st' \<Rightarrow> eager_drain cfg L st')
          else Done st)"
  by pat_completeness auto
termination
proof (relation "measure (\<lambda>(cfg, L, st). length (pending st))")
  show "wf (measure (\<lambda>(cfg, L, st). length (pending st)))"
    by simp
next
  fix cfg :: config and L :: layout and st st' :: result_state
    and u :: render_unit and q us :: "render_unit list"
  assume s: "this_stack st = Some q" and q: "q = u # us" and "has_room L st"
    and x: "exec_unit cfg u (st\<lparr>this_stack := Some us\<rparr>) = Done st'"
  have "this_stack st' = Some us"
    using x by (cases u) (auto split: sum.splits)
  with s q show "((cfg, L, st'), (cfg, L, st)) \<in> measure (\<lambda>(cfg, L, st). length (pending st))"
    by (simp add: pending_def)
qed

text \<open>
  The scroll listener:
  \<^verbatim>\<open>while (stack_.length && container.scrollTop + container.offsetHeight >=
    container.scrollHeight - 16) stack_.splice(0, 10).forEach(render => render())\<close>.
  \<^verbatim>\<open>splice\<close> removes the first ten units (or all, if fewer) before any of them is called.
  The scroll position is the one of the event: appending below it does not move it.
\<close>

function scroll_handler :: "config \<Rightarrow> layout \<Rightarrow> int \<Rightarrow> result_state \<Rightarrow> outcome" where
  "scroll_handler cfg L scrollTop st =
     (case this_stack st of
        None \<Rightarrow> Threw TypeError st
      | Some q \<Rightarrow>
          if length q \<noteq> 0 \<and> near_bottom L scrollTop st
          then (case forEach_render cfg (take 10 q) (st\<lparr>this_stack := Some (drop 10 q)\<rparr>) of
                  Threw e st' \<Rightarrow> Threw e st'
                | Done st' \<Rightarrow> scroll_handler cfg L scrollTop st')
          else Done st)"
  by pat_completeness auto
termination
proof (relation "measure (\<lambda>(cfg, L, scrollTop, st). length (pending st))")
  show "wf (measure (\<lambda>(cfg, L, scrollTop, st). length (pending st)))"
    by simp
next
  fix cfg :: config and L :: layout and scrollTop :: int and st st' :: result_state
    and q :: "render_unit list"
  assume s: "this_stack st = Some q"
    and c: "length q \<noteq> 0 \<and> near_bottom L scrollTop st"
    and x: "forEach_render cfg (take 10 q) (st\<lparr>this_stack := Some (drop 10 q)\<rparr>) = Done st'"
  have keep: "forEach_render cfg us s0 = Done s1 \<Longrightarrow> this_stack s1 = this_stack s0"
    for us s0 s1
  proof (induction us arbitrary: s0)
    case Nil
    then show ?case by simp
  next
    case (Cons v vs)
    then show ?case
      by (cases v) (auto split: sum.splits outcome.splits)
  qed
  have "this_stack st' = Some (drop 10 q)"
    using keep [OF x] by simp
  with s c
  show "((cfg, L, scrollTop, st'), (cfg, L, scrollTop, st))
          \<in> measure (\<lambda>(cfg, L, scrollTop, st). length (pending st))"
    by (simp add: pending_def)
qed

subsection \<open>Stage-2 completion: aggregation\<close>

text \<open>
  The teaser search, \<^verbatim>\<open>section_hit.hits.hits.forEach((section_obj) => ...)\<close>. The third
  argument is the variable \<^verbatim>\<open>teaserHighlight\<close>. Every section whose title equals the
  document title and whose \<^verbatim>\<open>highlight.text\<close> is present assigns it; a section with that
  title and no \<^verbatim>\<open>highlight\<close> object throws.
\<close>

fun find_teaser :: "string \<Rightarrow> sec_hit list \<Rightarrow> string option \<Rightarrow> error + string option" where
  "find_teaser t [] teaserHighlight = Inr teaserHighlight"
| "find_teaser t (section_obj # rest) teaserHighlight =
     (if sec_title section_obj = t then
        (case sec_highlight section_obj of
           None \<Rightarrow> Inl TypeError
         | Some h \<Rightarrow>
             (case hl_text h of
                None \<Rightarrow> find_teaser t rest teaserHighlight
              | Some frags \<Rightarrow> find_teaser t rest (first_fragment frags)))
      else find_teaser t rest teaserHighlight)"

text \<open>
  The article element for one document hit and its section hits: location, title
  (highlighted if present), and the teaser paragraph when \<^verbatim>\<open>teaserHighlight\<close> is truthy.
\<close>

definition make_article :: "config \<Rightarrow> doc_hit \<Rightarrow> sec_hit list \<Rightarrow> error + article_node" where
  "make_article cfg hit section_hits =
     (case hit_highlight hit of
        None \<Rightarrow> Inl TypeError
      | Some h \<Rightarrow>
          (let title_str = (case hl_title h of None \<Rightarrow> Some (source_title hit)
                                             | Some t \<Rightarrow> first_fragment t)
           in case find_teaser (source_title hit) section_hits (Some []) of
                Inl e \<Rightarrow> Inl e
              | Inr teaserHighlight \<Rightarrow>
                  Inr \<lparr>an_href = base_url cfg @ ''/'' @ source_location hit,
                       an_title = source_title hit,
                       an_heading = title_str,
                       an_teaser = (if truthy teaserHighlight then teaserHighlight else None),
                       an_sections = []\<rparr>))"

text \<open>
  \<^verbatim>\<open>section_result.forEach((section_hit, index) => ...)\<close> with \<^verbatim>\<open>hit = result[index]\<close>:
  the two lists are walked in step. A response beyond the last hit finds
  \<^verbatim>\<open>result[index]\<close> undefined and throws. For each pair the article is created at a new
  address, and the document unit followed by one section unit per section hit is pushed
  on the stack.
\<close>

fun aggregate ::
  "config \<Rightarrow> nat \<Rightarrow> doc_hit list \<Rightarrow> sec_hit list list \<Rightarrow> result_state \<Rightarrow> outcome" where
  "aggregate cfg g result [] st = Done st"
| "aggregate cfg g [] (section_hits # rest) st = Threw TypeError st"
| "aggregate cfg g (hit # result) (section_hits # rest) st =
     (case make_article cfg hit section_hits of
        Inl e \<Rightarrow> Threw e st
      | Inr article \<Rightarrow>
          (let a = length (articles st);
               st1 = st\<lparr>articles := articles st @ [article]\<rparr>
           in case this_stack st1 of
                None \<Rightarrow> Threw TypeError st1
              | Some q \<Rightarrow>
                  aggregate cfg g result rest
                    (st1\<lparr>this_stack :=
                           Some (q @ DocumentUnit g a # map (SectionUnit g a) section_hits)\<rparr>)))"

text \<open>
  The callback given to \<^verbatim>\<open>msearch\<close>. \<open>result\<close> is the stage-1 hit list the closure
  captured, \<open>g\<close> names this closure. An error is logged. Otherwise the responses are
  aggregated, the container is checked and the stack is drained eagerly. (Binding the
  click handlers of the painted anchors changes nothing that is modelled here.)
\<close>

definition stage2_callback ::
  "config \<Rightarrow> layout \<Rightarrow> nat \<Rightarrow> doc_hit list \<Rightarrow> error + sec_hit list list \<Rightarrow> result_state \<Rightarrow> outcome" where
  "stage2_callback cfg L g result r st =
     (case r of
        Inl error \<Rightarrow> Done (st\<lparr>console := console st @ [MsearchErrorLogged error]\<rparr>)
      | Inr section_result \<Rightarrow>
          (case aggregate cfg g result section_result st of
             Threw e st' \<Rightarrow> Threw e st'
           | Done st1 \<Rightarrow>
               if \<not> container_is_element cfg then Threw ReferenceError st1
               else eager_drain cfg L st1))"

subsection \<open>The component as an event system\<close>

text \<open>
  What the browser delivers to one instance: input events, scroll events (with the scroll
  position), and the completions of the two engine calls. A stage-2 completion carries
  the hit list its callback captured and the name of that callback. An exception ends
  the handler it was thrown in and nothing else.
\<close>

datatype sys_event =
  Update event
| Scroll int
| Stage1Done "error + search_response"
| Stage2Done nat "doc_hit list" "error + sec_hit list list"

fun step :: "config \<Rightarrow> layout \<Rightarrow> result_state \<Rightarrow> sys_event \<Rightarrow> result_state" where
  "step cfg L st (Update ev) = final (fst (update cfg ev st))"
| "step cfg L st (Scroll scrollTop) =
     (if scroll_bound st then final (scroll_handler cfg L scrollTop st) else st)"
| "step cfg L st (Stage1Done r) = final (fst (performElasticSearchQuery cfg r st))"
| "step cfg L st (Stage2Done g result r) = final (stage2_callback cfg L g result r st)"

definition run :: "config \<Rightarrow> layout \<Rightarrow> sys_event list \<Rightarrow> result_state \<Rightarrow> result_state" where
  "run cfg L evs st = foldl (step cfg L) st evs"

subsection \<open>Notions used to state the properties\<close>

text \<open>
  The sections that can supply the teaser of a document titled \<open>t\<close>: those with that title
  whose \<^verbatim>\<open>highlight.text\<close> is present, in response order.
\<close>

definition carries_fragment :: "sec_hit \<Rightarrow> bool" where
  "carries_fragment s =
     (case sec_highlight s of None \<Rightarrow> False | Some h \<Rightarrow> hl_text h \<noteq> None)"

definition teaser_candidates :: "string \<Rightarrow> sec_hit list \<Rightarrow> sec_hit list" where
  "teaser_candidates t section_hits =
     filter (\<lambda>s. sec_title s = t \<and> carries_fragment s) section_hits"

text \<open>\<^verbatim>\<open>section_obj.highlight.text[0]\<close> of a section that carries a fragment array.\<close>

definition highlighted_text :: "sec_hit \<Rightarrow> string option" where
  "highlighted_text s =
     (case sec_highlight s of
        None \<Rightarrow> None
      | Some h \<Rightarrow> (case hl_text h of None \<Rightarrow> None | Some frags \<Rightarrow> first_fragment frags))"

text \<open>
  The units that one stage-2 completion pushes when its responses are aligned with the
  hits: for the response at position \<open>i\<close>, the document unit of the article at address
  \<open>a0 + i\<close>, then one section unit per section hit, in response order.
\<close>

fun units_from :: "nat \<Rightarrow> nat \<Rightarrow> sec_hit list list \<Rightarrow> render_unit list" where
  "units_from g a0 [] = []"
| "units_from g a0 (section_hits # rest) =
     (DocumentUnit g a0 # map (SectionUnit g a0) section_hits) @ units_from g (Suc a0) rest"

text \<open>
  A sequence of units in which no document unit comes after a section unit of the same
  article.
\<close>

fun sections_follow :: "render_unit list \<Rightarrow> bool" where
  "sections_follow [] = True"
| "sections_follow (u # us) =
     ((is_document u \<or> (\<forall>v \<in> set us. is_document v \<longrightarrow> unit_article v \<noteq> unit_article u))
      \<and> sections_follow us)"

text \<open>A unit whose call returns: every document unit, and a section unit that renders.\<close>

fun renders :: "config \<Rightarrow> render_unit \<Rightarrow> bool" where
  "renders cfg (DocumentUnit g a) = True"
| "renders cfg (SectionUnit g a hit) = (case render_section cfg hit of Inl e \<Rightarrow> False | Inr n \<Rightarrow> True)"

text \<open>The stage-2 completions of the callback named \<open>g\<close>.\<close>

fun completes_stage2 :: "nat \<Rightarrow> sys_event \<Rightarrow> bool" where
  "completes_stage2 g (Stage2Done g' result r) = (g' = g)"
| "completes_stage2 g e = False"


text \<open>
  The invariant behind the ordering property: over the units executed so far followed by
  the pending ones, sections follow their documents, and every unit refers to an article
  that has been created.
\<close>

definition trace_inv :: "result_state \<Rightarrow> bool" where
  "trace_inv st =
     (sections_follow (executed st @ pending st)
      \<and> (\<forall>u \<in> set (executed st @ pending st). unit_article u < length (articles st)))"

text \<open>No pending unit was created by the stage-2 callback named \<open>g\<close>.\<close>

definition no_pending :: "nat \<Rightarrow> result_state \<Rightarrow> bool" where
  "no_pending g st = (\<forall>u \<in> set (pending st). unit_search u \<noteq> g)"

text \<open>
  A sequence of units in which every section unit comes after a document unit of the
  same article; \<open>seen\<close> holds the articles of the document units met before.
\<close>

fun documents_first :: "nat list \<Rightarrow> render_unit list \<Rightarrow> bool" where
  "documents_first seen [] = True"
| "documents_first seen (DocumentUnit g a # us) = documents_first (a # seen) us"
| "documents_first seen (SectionUnit g a hit # us) = (a \<in> set seen \<and> documents_first seen us)"

text \<open>An event whose section hits, if it is a stage-2 response, all render.\<close>

fun sections_render :: "config \<Rightarrow> sys_event \<Rightarrow> bool" where
  "sections_render cfg (Stage2Done g result (Inr section_result)) =
     (\<forall>section_hits \<in> set section_result. \<forall>s \<in> set section_hits.
        (case render_section cfg s of Inl e \<Rightarrow> False | Inr n \<Rightarrow> True))"
| "sections_render cfg e = True"

text \<open>
  The invariant of runs in which no renderer throws: over the units executed so far
  followed by the pending ones, documents come first, and every pending unit renders.
\<close>

definition order_inv :: "config \<Rightarrow> result_state \<Rightarrow> bool" where
  "order_inv cfg st =
     (documents_first [] (executed st @ pending st) \<and> (\<forall>u \<in> set (pending st). renders cfg u))"

text \<open>
  The condition under which the article of a document hit is built without an exception:
  the hit carries a \<^verbatim>\<open>highlight\<close> object, and so does every section hit whose title equals
  the title of the document.
\<close>

definition aggregable :: "doc_hit \<Rightarrow> sec_hit list \<Rightarrow> bool" where
  "aggregable hit section_hits =
     (hit_highlight hit \<noteq> None
      \<and> (\<forall>s \<in> set section_hits. sec_title s = source_title hit \<longrightarrow> sec_highlight s \<noteq> None))"

text \<open>
  The number of leading pairs of a hit and its response that satisfy this condition: the
  aggregation gets that far.
\<close>

definition aggregated_count :: "doc_hit list \<Rightarrow> sec_hit list list \<Rightarrow> nat" where
  "aggregated_count result section_result =
     length (takeWhile (\<lambda>(hit, section_hits). aggregable hit section_hits)
               (zip result section_result))"

text \<open>
  The condition under which a section renderer returns: the section hit carries a
  \<^verbatim>\<open>highlight\<close> object, and its highlighted text, if present, is not an empty array.
\<close>

definition section_renders :: "sec_hit \<Rightarrow> bool" where
  "section_renders s =
     (case sec_highlight s of None \<Rightarrow> False | Some h \<Rightarrow> hl_text h \<noteq> Some [])"

text \<open>
  One pass through the body of the scroll listener's loop, \<^verbatim>\<open>stack_.splice(0, 10)\<close>
  followed by the \<^verbatim>\<open>forEach\<close>, and the state after \<open>j\<close> passes.
\<close>

definition batch :: "config \<Rightarrow> result_state \<Rightarrow> outcome" where
  "batch cfg st =
     forEach_render cfg (take 10 (pending st)) (st\<lparr>this_stack := Some (drop 10 (pending st))\<rparr>)"

fun batches :: "config \<Rightarrow> nat \<Rightarrow> result_state \<Rightarrow> result_state" where
  "batches cfg 0 st = st"
| "batches cfg (Suc j) st = batches cfg j (final (batch cfg st))"

text \<open>
  One pass through the body of the eager loop, \<^verbatim>\<open>(stack_.shift())()\<close>, and the state after
  \<open>j\<close> passes.
\<close>

definition shift :: "config \<Rightarrow> result_state \<Rightarrow> outcome" where
  "shift cfg st =
     (case pending st of
        [] \<Rightarrow> Done st
      | u # us \<Rightarrow> exec_unit cfg u (st\<lparr>this_stack := Some us\<rparr>))"

fun shifts :: "config \<Rightarrow> nat \<Rightarrow> result_state \<Rightarrow> result_state" where
  "shifts cfg 0 st = st"
| "shifts cfg (Suc j) st = shifts cfg j (final (shift cfg st))"

subsection \<open>Example data\<close>

text \<open>
  A configuration, a container 400 units high in which an article takes 30 units and
  each of its sections 20, and a few hits, for evaluating the operations on concrete
  inputs.
\<close>

definition example_config :: config where
  "example_config =
     \<lparr>base_url = ''/docs'', es_index_name = ''mkdocs'',
      msg_placeholder = ''Type to start searching'',
      msg_none = ''No matching documents'',
      msg_one = ''1 matching document'',
      msg_other = ''# matching documents'',
      container_is_element = True, global_error = None\<rparr>"

definition content_height :: "article_node list \<Rightarrow> int" where
  "content_height arts = (\<Sum>a\<leftarrow>arts. 30 + 20 * int (length (an_sections a)))"

definition example_layout :: layout where
  "example_layout =
     \<lparr>offsetHeight = (\<lambda>arts. 400),
      scrollHeight = (\<lambda>arts. max 400 (content_height arts))\<rparr>"

definition example_doc :: "string \<Rightarrow> string \<Rightarrow> doc_hit" where
  "example_doc i t =
     \<lparr>hit_id = i, source_title = t, source_location = t @ ''/'',
      hit_highlight = Some \<lparr>hl_title = Some [''<em>'' @ t @ ''</em>''], hl_text = None\<rparr>\<rparr>"

definition example_section :: "string \<Rightarrow> string list option \<Rightarrow> sec_hit" where
  "example_section t frags =
     \<lparr>sec_title = t, sec_location = ''page/#'' @ t, sec_text = ''plain text of '' @ t,
      sec_highlight = Some \<lparr>hl_title = None, hl_text = frags\<rparr>\<rparr>"

definition blank_article :: article_node where
  "blank_article =
     \<lparr>an_href = ''/docs/page/'', an_title = ''Page'', an_heading = Some ''Page'',
      an_teaser = None, an_sections = []\<rparr>"

definition focus :: sys_event where
  "focus = Update \<lparr>ev_type = Focus, ev_target = Some []\<rparr>"

definition keyup :: "string \<Rightarrow> sys_event" where
  "keyup v = Update \<lparr>ev_type = Keyup, ev_target = Some v\<rparr>"

text \<open>\<open>n\<close> document hits titled \<^verbatim>\<open>Page 0\<close>, \<^verbatim>\<open>Page 1\<close>, and so on.\<close>

definition many_docs :: "nat \<Rightarrow> doc_hit list" where
  "many_docs n = map (\<lambda>i. example_doc (decimal i) (''Page '' @ decimal i)) [0..<n]"

text \<open>
  A search for \<^verbatim>\<open>a\<close> has returned 26 documents without sections; then the input changed
  to \<^verbatim>\<open>ab\<close>, whose query is still in flight.
\<close>

definition after_new_input :: result_state where
  "after_new_input =
     run example_config example_layout
       [focus, keyup ''a'', Stage1Done (Inr \<lparr>hits = many_docs 26, total = 26\<rparr>),
        Stage2Done 1 (many_docs 26) (Inr (replicate 26 [])), keyup ''ab'']
       (initial_state example_config)"

text \<open>
  A container 40 units high whose content starts with 60 units above the result list, so
  that nothing is painted eagerly; and a container without a fixed height, which grows
  with its content and always has room.
\<close>

definition crowded_layout :: layout where
  "crowded_layout =
     \<lparr>offsetHeight = (\<lambda>arts. 40),
      scrollHeight = (\<lambda>arts. 60 + content_height arts)\<rparr>"

definition growing_layout :: layout where
  "growing_layout =
     \<lparr>offsetHeight = (\<lambda>arts. 60 + content_height arts),
      scrollHeight = (\<lambda>arts. 60 + content_height arts)\<rparr>"

text \<open>
  Two document hits. In the long response the first document has eight sections, the first
  of them without a \<^verbatim>\<open>highlight\<close> object, and the second document has one; in the short
  response every section hit is well formed.
\<close>

definition broken_section :: sec_hit where
  "broken_section = (example_section ''Broken'' None)\<lparr>sec_highlight := None\<rparr>"

definition long_response :: "sec_hit list list" where
  "long_response =
     [broken_section # map (\<lambda>i. example_section (''Part '' @ decimal i) None) [0..<7],
      [example_section ''Install'' None]]"

definition two_docs :: "doc_hit list" where
  "two_docs = [example_doc ''1'' ''Intro'', example_doc ''2'' ''Setup'']"

definition short_response :: "sec_hit list list" where
  "short_response =
     [[example_section ''Intro'' (Some [''a'']), example_section ''Usage'' None],
      [example_section ''Install'' None]]"

text \<open>The stage-1 response for the two documents has arrived.\<close>

definition first_response :: result_state where
  "first_response =
     run example_config example_layout
       [focus, keyup ''a'', Stage1Done (Inr \<lparr>hits = two_docs, total = 2\<rparr>)]
       (initial_state example_config)"

text \<open>
  The search for \<^verbatim>\<open>a\<close> has returned 26 documents without sections: 14 are painted, 12
  document units are pending.
\<close>

definition after_first_search :: result_state where
  "after_first_search =
     run example_config example_layout
       [focus, keyup ''a'', Stage1Done (Inr \<lparr>hits = many_docs 26, total = 26\<rparr>),
        Stage2Done 1 (many_docs 26) (Inr (replicate 26 []))]
       (initial_state example_config)"

text \<open>
  Overlapping searches in the crowded container. In \<open>older_pending\<close> the search for \<^verbatim>\<open>a\<close>
  (callback 1) has installed its units and the input has changed to \<^verbatim>\<open>ab\<close>. In
  \<open>newer_pending\<close> both queries were dispatched and the search for \<^verbatim>\<open>ab\<close> (callback 2)
  has completed first and installed its units.
\<close>

definition older_pending :: result_state where
  "older_pending =
     run example_config crowded_layout
       [focus, keyup ''a'',
        Stage1Done (Inr \<lparr>hits = [example_doc ''3'' ''Atlas''], total = 1\<rparr>),
        Stage2Done 1 [example_doc ''3'' ''Atlas''] (Inr [[example_section ''Maps'' None]]),
        keyup ''ab'']
       (initial_state example_config)"

definition newer_pending :: result_state where
  "newer_pending =
     run example_config crowded_layout
       [focus, keyup ''a'', keyup ''ab'',
        Stage1Done (Inr \<lparr>hits = [example_doc ''7'' ''Abacus''], total = 1\<rparr>),
        Stage2Done 2 [example_doc ''7'' ''Abacus''] (Inr [[example_section ''Beads'' None]])]
       (initial_state example_config)"

declare truncate_scan.simps [simp del]

declare eager_drain.simps [simp del]

declare scroll_handler.simps [simp del]

section \<open>Properties of truncate\<close>

lemma truncate_scan_unfold:
  "truncate_scan s i =
     (if char_at s i \<noteq> Some CHR '' ''
      then (if i - 1 > 0 then truncate_scan s (i - 1) else i - 1)
      else i)"
  by (rule truncate_scan.simps)

lemma truncate_scan_stops_at_space:
  "0 \<le> j \<Longrightarrow> j \<le> n \<Longrightarrow> char_at s j = Some CHR '' '' \<Longrightarrow>
   (\<forall>k. j < k \<and> k \<le> n \<longrightarrow> char_at s k \<noteq> Some CHR '' '') \<Longrightarrow>
   truncate_scan s n = j"
proof (induction s n rule: truncate_scan.induct)
  case (1 s i)
  show ?case
  proof (cases "i = j")
    case True
    with "1.prems" show ?thesis
      by (subst truncate_scan_unfold) simp
  next
    case False
    with "1.prems" have lt: "j < i" by simp
    with "1.prems" have ns: "char_at s i \<noteq> Some CHR '' ''" by simp
    show ?thesis
    proof (cases "i - 1 > 0")
      case True
      have "truncate_scan s (i - 1) = j"
        using "1.IH" [OF ns True] "1.prems" lt by simp
      with ns True show ?thesis
        by (subst truncate_scan_unfold) simp
    next
      case False
      with lt "1.prems" have "j = 0" "i = 1" by simp_all
      with ns show ?thesis
        by (subst truncate_scan_unfold) simp
    qed
  qed
qed

lemma truncate_scan_no_space:
  "(\<forall>k. 1 \<le> k \<and> k \<le> n \<longrightarrow> char_at s k \<noteq> Some CHR '' '') \<Longrightarrow> truncate_scan s n \<le> 0"
proof (induction s n rule: truncate_scan.induct)
  case (1 s i)
  show ?case
  proof (cases "char_at s i \<noteq> Some CHR '' ''")
    case ns: True
    show ?thesis
    proof (cases "i - 1 > 0")
      case True
      have "truncate_scan s (i - 1) \<le> 0"
        using "1.IH" [OF ns True] "1.prems" by simp
      with ns True show ?thesis
        by (subst truncate_scan_unfold) simp
    next
      case False
      with ns show ?thesis
        by (subst truncate_scan_unfold) simp
    qed
  next
    case False
    with "1.prems" have "\<not> 1 \<le> i" by auto
    with False show ?thesis
      by (subst truncate_scan_unfold) simp
  qed
qed

text \<open>
  C7. \<^verbatim>\<open>truncate(s, n)\<close> returns \<open>s\<close> unchanged when \<open>s.length \<le> n\<close>. When \<open>s.length > n\<close>
  and \<open>j\<close> is the largest index \<open>\<le> n\<close> that holds a space, it returns the prefix of \<open>s\<close>
  that ends just before index \<open>j\<close>, followed by \<^verbatim>\<open>"..."\<close>. In particular
  \<^verbatim>\<open>truncate("abcdefgh ijkl", 8) = "abcdefgh..."\<close> and \<^verbatim>\<open>truncate("short", 10) = "short"\<close>.
\<close>

theorem truncate_nearest_space:
  "(int (length s) \<le> n \<longrightarrow> truncate s n = s)
   \<and> (n < int (length s) \<and> 0 \<le> j \<and> j \<le> n \<and> char_at s j = Some CHR '' ''
        \<and> (\<forall>k. j < k \<and> k \<le> n \<longrightarrow> char_at s k \<noteq> Some CHR '' '')
      \<longrightarrow> truncate s n = take (nat j) s @ ''...'')
   \<and> truncate ''abcdefgh ijkl'' 8 = ''abcdefgh...''
   \<and> truncate ''short'' 10 = ''short''"
proof (intro conjI impI)
  show "truncate s n = s" if "int (length s) \<le> n"
    using that by (simp add: truncate_def)
next
  assume h: "n < int (length s) \<and> 0 \<le> j \<and> j \<le> n \<and> char_at s j = Some CHR '' ''
        \<and> (\<forall>k. j < k \<and> k \<le> n \<longrightarrow> char_at s k \<noteq> Some CHR '' '')"
  then have "truncate_scan s n = j"
    using truncate_scan_stops_at_space [of j n s] by blast
  with h show "truncate s n = take (nat j) s @ ''...''"
    by (simp add: truncate_def substring0_def)
next
  have "truncate_scan ''abcdefgh ijkl'' 8 = 8"
    by (subst truncate_scan_unfold) (simp add: char_at_def)
  then show "truncate ''abcdefgh ijkl'' 8 = ''abcdefgh...''"
    by (simp add: truncate_def substring0_def)
next
  show "truncate ''short'' 10 = ''short''"
    by (simp add: truncate_def)
qed

theorem truncate_nearest_space_witness:
  "truncate ''ab cd ef'' 6 = ''ab cd...'' \<and> truncate ''ab'' 2 = ''ab''"
proof -
  have c: "char_at ''ab cd ef'' 5 = Some CHR '' ''"
    by (simp add: char_at_def)
  have n: "\<forall>k. (5::int) < k \<and> k \<le> 6 \<longrightarrow> char_at ''ab cd ef'' k \<noteq> Some CHR '' ''"
  proof (intro allI impI)
    fix k :: int
    assume "5 < k \<and> k \<le> 6"
    then have "k = 6" by simp
    then show "char_at ''ab cd ef'' k \<noteq> Some CHR '' ''"
      by (simp add: char_at_def)
  qed
  have "truncate ''ab cd ef'' 6 = take (nat 5) ''ab cd ef'' @ ''...''"
    using truncate_nearest_space [of "''ab cd ef''" 6 5] c n by simp
  moreover have "truncate ''ab'' 2 = ''ab''"
    using truncate_nearest_space [of "''ab''" 2 0] by simp
  ultimately show ?thesis by simp
qed

text \<open>
  C6 (as stated, refuted). For a string longer than the budget with no space at or before
  the budget, the claim promises the first \<open>n\<close> characters followed by the ellipsis. At
  \<^verbatim>\<open>truncate("abcdefghij", 5)\<close> the code returns \<^verbatim>\<open>"..."\<close>, not \<^verbatim>\<open>"abcde..."\<close>.
\<close>

theorem truncate_budget_counterexample:
  "5 < int (length ''abcdefghij'') \<and> CHR '' '' \<notin> set ''abcdefghij''
   \<and> truncate ''abcdefghij'' 5 = ''...''
   \<and> truncate ''abcdefghij'' 5 \<noteq> take 5 ''abcdefghij'' @ ''...''"
proof -
  have "truncate_scan ''abcdefghij'' 5 = 0"
    by (simp add: truncate_scan_unfold char_at_def)
  then show ?thesis
    by (simp add: truncate_def substring0_def)
qed

text \<open>
  C6 (amended). For a string longer than the budget \<open>n\<close> with no space at any index from
  1 to \<open>n\<close> (in particular with no space at or before \<open>n\<close>), the scan runs down to index 0
  and \<^verbatim>\<open>truncate(s, n)\<close> returns the ellipsis alone: no character of \<open>s\<close> is kept.
\<close>

theorem truncate_no_space_gives_ellipsis:
  "n < int (length s) \<Longrightarrow>
   (\<forall>k. 1 \<le> k \<and> k \<le> n \<longrightarrow> char_at s k \<noteq> Some CHR '' '') \<Longrightarrow>
   truncate s n = ''...''"
proof -
  assume len: "n < int (length s)"
    and ns: "\<forall>k. 1 \<le> k \<and> k \<le> n \<longrightarrow> char_at s k \<noteq> Some CHR '' ''"
  have "truncate_scan s n \<le> 0"
    using ns by (rule truncate_scan_no_space)
  then have "substring0 s (truncate_scan s n) = []"
    by (simp add: substring0_def)
  with len show ?thesis
    by (simp add: truncate_def)
qed

theorem truncate_no_space_gives_ellipsis_witness:
  "truncate ''abcd'' 2 = ''...''"
proof -
  have len: "2 < int (length ''abcd'')" by simp
  have ns: "\<forall>k. (1::int) \<le> k \<and> k \<le> 2 \<longrightarrow> char_at ''abcd'' k \<noteq> Some CHR '' ''"
  proof (intro allI impI)
    fix k :: int
    assume "1 \<le> k \<and> k \<le> 2"
    then have "k = 1 \<or> k = 2" by auto
    then show "char_at ''abcd'' k \<noteq> Some CHR '' ''"
      by (auto simp: char_at_def)
  qed
  show ?thesis
    using truncate_no_space_gives_ellipsis [OF len ns] .
qed

section \<open>Auxiliary facts about the operations\<close>

lemma exec_unit_Done:
  "exec_unit cfg u st = Done st' \<Longrightarrow>
   executed st' = executed st @ [u] \<and> this_stack st' = this_stack st
   \<and> length (articles st') = length (articles st)
   \<and> this_value st' = this_value st \<and> this_meta st' = this_meta st
   \<and> this_initialized st' = this_initialized st \<and> scroll_bound st' = scroll_bound st"
  by (cases u) (auto split: sum.splits)

lemma exec_unit_Threw: "exec_unit cfg u st = Threw e st' \<Longrightarrow> st' = st"
  by (cases u) (auto split: sum.splits)

lemma exec_unit_renders: "renders cfg u \<Longrightarrow> \<exists>st'. exec_unit cfg u st = Done st'"
  by (cases u) (auto split: sum.splits)

lemma pending_Some [simp]: "this_stack st = Some q \<Longrightarrow> pending st = q"
  by (simp add: pending_def)

lemma forEach_render_trace:
  "\<exists>ex lost. executed (final (forEach_render cfg us st)) = executed st @ ex
     \<and> us = ex @ lost
     \<and> this_stack (final (forEach_render cfg us st)) = this_stack st
     \<and> length (articles (final (forEach_render cfg us st))) = length (articles st)
     \<and> (\<not> threw (forEach_render cfg us st) \<longrightarrow> lost = [])"
proof (induction us arbitrary: st)
  case Nil
  then show ?case by simp
next
  case (Cons u us)
  show ?case
  proof (cases "exec_unit cfg u st")
    case (Done st1)
    from Cons.IH [of st1] obtain ex lost where
      h: "executed (final (forEach_render cfg us st1)) = executed st1 @ ex"
         "us = ex @ lost"
         "this_stack (final (forEach_render cfg us st1)) = this_stack st1"
         "length (articles (final (forEach_render cfg us st1))) = length (articles st1)"
         "\<not> threw (forEach_render cfg us st1) \<longrightarrow> lost = []"
      by blast
    have "executed (final (forEach_render cfg (u # us) st)) = executed st @ (u # ex)"
      using Done h exec_unit_Done [OF Done] by simp
    moreover have "u # us = (u # ex) @ lost" using h by simp
    ultimately show ?thesis
      using Done h exec_unit_Done [OF Done] by (intro exI [of _ "u # ex"] exI [of _ lost]) simp
  next
    case (Threw e st1)
    then have "st1 = st" by (rule exec_unit_Threw)
    with Threw show ?thesis
      by (intro exI [of _ "[]"] exI [of _ "u # us"]) simp
  qed
qed

lemma eager_drain_trace:
  "\<exists>ex lost. executed (final (eager_drain cfg L st)) = executed st @ ex
     \<and> pending st = ex @ lost @ pending (final (eager_drain cfg L st))
     \<and> length (articles (final (eager_drain cfg L st))) = length (articles st)
     \<and> (\<not> threw (eager_drain cfg L st) \<longrightarrow> lost = [])"
proof (induction cfg L st rule: eager_drain.induct)
  case (1 cfg L st)
  show ?case
  proof (cases "this_stack st")
    case None
    then show ?thesis
      by (subst (1 2 3 4) eager_drain.simps) (simp add: pending_def)
  next
    case (Some q)
    show ?thesis
    proof (cases q)
      case Nil
      with Some show ?thesis
        by (subst (1 2 3 4) eager_drain.simps) simp
    next
      case (Cons u us)
      show ?thesis
      proof (cases "has_room L st")
        case False
        with Some Cons show ?thesis
          by (subst (1 2 3 4) eager_drain.simps) simp
      next
        case True
        show ?thesis
        proof (cases "exec_unit cfg u (st\<lparr>this_stack := Some us\<rparr>)")
          case (Threw e st1)
          then have "st1 = st\<lparr>this_stack := Some us\<rparr>" by (rule exec_unit_Threw)
          with Threw Some Cons True show ?thesis
            by (subst (1 2 3 4) eager_drain.simps)
               (auto intro!: exI [of _ "[]"] exI [of _ "[u]"])
        next
          case (Done st1)
          from "1.IH" [OF Some Cons True Done] obtain ex lost where
            h: "executed (final (eager_drain cfg L st1)) = executed st1 @ ex"
               "pending st1 = ex @ lost @ pending (final (eager_drain cfg L st1))"
               "length (articles (final (eager_drain cfg L st1))) = length (articles st1)"
               "\<not> threw (eager_drain cfg L st1) \<longrightarrow> lost = []"
            by blast
          have e: "eager_drain cfg L st = eager_drain cfg L st1"
            using Some Cons True Done by (subst eager_drain.simps) simp
          have p: "pending st1 = us"
            using exec_unit_Done [OF Done] by (simp add: pending_def)
          show ?thesis
            unfolding e using h p Some Cons exec_unit_Done [OF Done]
            by (intro exI [of _ "u # ex"] exI [of _ lost]) simp
        qed
      qed
    qed
  qed
qed

lemma scroll_handler_trace:
  "\<exists>ex lost. executed (final (scroll_handler cfg L y st)) = executed st @ ex
     \<and> pending st = ex @ lost @ pending (final (scroll_handler cfg L y st))
     \<and> length (articles (final (scroll_handler cfg L y st))) = length (articles st)
     \<and> (\<not> threw (scroll_handler cfg L y st) \<longrightarrow> lost = [])"
proof (induction cfg L y st rule: scroll_handler.induct)
  case (1 cfg L y st)
  show ?case
  proof (cases "this_stack st")
    case None
    then show ?thesis
      by (subst (1 2 3 4) scroll_handler.simps) (simp add: pending_def)
  next
    case (Some q)
    show ?thesis
    proof (cases "length q \<noteq> 0 \<and> near_bottom L y st")
      case False
      with Some show ?thesis
        by (subst (1 2 3 4) scroll_handler.simps) auto
    next
      case True
      let ?s0 = "st\<lparr>this_stack := Some (drop 10 q)\<rparr>"
      let ?r = "forEach_render cfg (take 10 q) ?s0"
      obtain ex0 lost0 where
        f0: "executed (final ?r) = executed ?s0 @ ex0"
           "take 10 q = ex0 @ lost0"
           "this_stack (final ?r) = this_stack ?s0"
           "length (articles (final ?r)) = length (articles ?s0)"
           "\<not> threw ?r \<longrightarrow> lost0 = []"
        using forEach_render_trace [of cfg "take 10 q" ?s0] by blast
      have f: "executed (final ?r) = executed st @ ex0"
           "take 10 q = ex0 @ lost0"
           "this_stack (final ?r) = Some (drop 10 q)"
           "length (articles (final ?r)) = length (articles st)"
           "\<not> threw ?r \<longrightarrow> lost0 = []"
        using f0 by simp_all
      have q: "q = ex0 @ lost0 @ drop 10 q"
        using f(2) append_take_drop_id [of 10 q] by (metis append.assoc)
      show ?thesis
      proof (cases "forEach_render cfg (take 10 q) ?s0")
        case (Threw e st1)
        have e: "scroll_handler cfg L y st = Threw e st1"
          using Some True Threw by (subst scroll_handler.simps) simp
        show ?thesis
          unfolding e using f q Threw Some
          by (intro exI [of _ ex0] exI [of _ lost0]) (simp add: pending_def)
      next
        case (Done st1)
        have e: "scroll_handler cfg L y st = scroll_handler cfg L y st1"
          using Some True Done by (subst scroll_handler.simps) simp
        from "1.IH" [OF Some True Done] obtain ex lost where
          h: "executed (final (scroll_handler cfg L y st1)) = executed st1 @ ex"
             "pending st1 = ex @ lost @ pending (final (scroll_handler cfg L y st1))"
             "length (articles (final (scroll_handler cfg L y st1))) = length (articles st1)"
             "\<not> threw (scroll_handler cfg L y st1) \<longrightarrow> lost = []"
          by blast
        have l0: "lost0 = []" using f(5) Done by simp
        have p1: "pending st1 = drop 10 q" using f(3) Done by (simp add: pending_def)
        have "pending st = (ex0 @ ex) @ lost @ pending (final (scroll_handler cfg L y st1))"
          using q l0 h(2) p1 Some by (simp add: pending_def)
        moreover have "executed (final (scroll_handler cfg L y st1)) = executed st @ ex0 @ ex"
          using h(1) f(1) Done by simp
        moreover have "length (articles (final (scroll_handler cfg L y st1))) = length (articles st)"
          using h(3) f(4) Done by simp
        ultimately show ?thesis
          unfolding e using h(4)
          by (intro exI [of _ "ex0 @ ex"] exI [of _ lost]) simp
      qed
    qed
  qed
qed

lemma find_teaser_total:
  "(\<forall>s \<in> set secs. sec_title s = t \<longrightarrow> sec_highlight s \<noteq> None) \<Longrightarrow>
   find_teaser t secs acc =
     Inr (if teaser_candidates t secs = [] then acc
          else highlighted_text (last (teaser_candidates t secs)))"
proof (induction secs arbitrary: acc)
  case Nil
  then show ?case by (simp add: teaser_candidates_def)
next
  case (Cons s secs)
  then have ih: "\<And>acc. find_teaser t secs acc =
     Inr (if teaser_candidates t secs = [] then acc
          else highlighted_text (last (teaser_candidates t secs)))"
    by simp
  show ?case
  proof (cases "sec_title s = t")
    case False
    then show ?thesis by (simp add: ih teaser_candidates_def)
  next
    case True
    with Cons.prems obtain h where h: "sec_highlight s = Some h" by auto
    show ?thesis
    proof (cases "hl_text h")
      case None
      with True h show ?thesis
        by (simp add: ih teaser_candidates_def carries_fragment_def)
    next
      case (Some frags)
      with True h show ?thesis
        by (simp add: ih teaser_candidates_def carries_fragment_def highlighted_text_def)
    qed
  qed
qed


lemma aggregate_trace:
  "\<exists>k \<le> length rs.
      pending (final (aggregate cfg g result rs st))
        = pending st @ units_from g (length (articles st)) (take k rs)
    \<and> executed (final (aggregate cfg g result rs st)) = executed st
    \<and> length (articles st) + k \<le> length (articles (final (aggregate cfg g result rs st)))"
proof (induction cfg g result rs st rule: aggregate.induct)
  case (1 cfg g result st)
  then show ?case by simp
next
  case (2 cfg g section_hits rest st)
  then show ?case by (intro exI [of _ 0]) simp
next
  case (3 cfg g hit result section_hits rest st)
  show ?case
  proof (cases "make_article cfg hit section_hits")
    case (Inl e)
    then show ?thesis by (intro exI [of _ 0]) simp
  next
    case (Inr article)
    let ?a = "length (articles st)"
    let ?st1 = "st\<lparr>articles := articles st @ [article]\<rparr>"
    show ?thesis
    proof (cases "this_stack st")
      case None
      with Inr show ?thesis by (intro exI [of _ 0]) (simp add: pending_def)
    next
      case (Some q)
      let ?new = "DocumentUnit g ?a # map (SectionUnit g ?a) section_hits"
      let ?st2 = "?st1\<lparr>this_stack := Some (q @ ?new)\<rparr>"
      have s1: "this_stack ?st1 = Some q" using Some by simp
      have e: "aggregate cfg g (hit # result) (section_hits # rest) st
                 = aggregate cfg g result rest ?st2"
        using Inr Some by (simp add: Let_def)
      from "3.IH" [OF Inr refl refl s1] obtain k where
        k: "k \<le> length rest"
           "pending (final (aggregate cfg g result rest ?st2))
              = pending ?st2 @ units_from g (length (articles ?st2)) (take k rest)"
           "executed (final (aggregate cfg g result rest ?st2)) = executed ?st2"
           "length (articles ?st2) + k \<le> length (articles (final (aggregate cfg g result rest ?st2)))"
        by blast
      have "pending (final (aggregate cfg g result rest ?st2))
              = pending st @ units_from g ?a (take (Suc k) (section_hits # rest))"
        using k(2) Some by (simp add: pending_def)
      then show ?thesis
        unfolding e using k(1,3,4) by (intro exI [of _ "Suc k"]) simp
    qed
  qed
qed


lemma sections_follow_append:
  "sections_follow (xs @ ys) \<longleftrightarrow>
     sections_follow xs \<and> sections_follow ys
     \<and> (\<forall>u \<in> set xs. \<not> is_document u \<longrightarrow>
           (\<forall>v \<in> set ys. is_document v \<longrightarrow> unit_article v \<noteq> unit_article u))"
  by (induction xs) auto

lemma sections_follow_subseq:
  "subseq xs ys \<Longrightarrow> sections_follow ys \<Longrightarrow> sections_follow xs"
proof (induction rule: list_emb.induct)
  case (list_emb_Nil ys)
  then show ?case by simp
next
  case (list_emb_Cons xs ys y)
  then show ?case by simp
next
  case (list_emb_Cons2 x y xs ys)
  have "set xs \<subseteq> set ys"
  proof
    fix u assume "u \<in> set xs"
    with list_emb_Cons2.hyps(2) show "u \<in> set ys"
      by (auto elim: list_emb_set)
  qed
  with list_emb_Cons2 show ?case by auto
qed

lemma units_from_articles:
  "u \<in> set (units_from g a0 rs) \<Longrightarrow> a0 \<le> unit_article u \<and> unit_article u < a0 + length rs"
  by (induction rs arbitrary: a0) fastforce+

lemma units_from_search: "u \<in> set (units_from g a0 rs) \<Longrightarrow> unit_search u = g"
  by (induction rs arbitrary: a0) auto

lemma sections_follow_units_from: "sections_follow (units_from g a0 rs)"
proof (induction rs arbitrary: a0)
  case Nil
  then show ?case by simp
next
  case (Cons secs rs)
  have a: "sections_follow (map (SectionUnit g a0) secs)"
    by (induction secs) auto
  have b: "\<forall>v \<in> set (units_from g (Suc a0) rs). unit_article v \<noteq> a0"
    using units_from_articles [of _ g "Suc a0" rs] by fastforce
  show ?case
    using a b Cons.IH [of "Suc a0"] by (auto simp: sections_follow_append)
qed

lemma sections_follow_install:
  "sections_follow xs \<Longrightarrow> \<forall>u \<in> set xs. unit_article u < a0 \<Longrightarrow>
   sections_follow (xs @ units_from g a0 rs)"
  using units_from_articles [of _ g a0 rs]
  by (fastforce simp: sections_follow_append sections_follow_units_from)

lemma update_frame:
  "executed (final (fst (update cfg ev st))) = executed st
   \<and> this_stack (final (fst (update cfg ev st))) = this_stack st
   \<and> articles (final (fst (update cfg ev st))) = articles st"
  by (simp add: update_def Let_def split: option.splits)

lemma stage1_callback_frame:
  "executed (final (fst (stage1_callback cfg r st))) = executed st
   \<and> articles (final (fst (stage1_callback cfg r st))) = articles st
   \<and> this_list (final (fst (stage1_callback cfg r st))) = this_list st
   \<and> (this_stack (final (fst (stage1_callback cfg r st))) = this_stack st
        \<or> this_stack (final (fst (stage1_callback cfg r st))) = Some [])"
  by (simp add: stage1_callback_def Let_def split: sum.splits option.splits)

lemma performElasticSearchQuery_frame:
  "executed (final (fst (performElasticSearchQuery cfg r st))) = executed st
   \<and> articles (final (fst (performElasticSearchQuery cfg r st))) = articles st
   \<and> this_list (final (fst (performElasticSearchQuery cfg r st))) = this_list st
   \<and> (this_stack (final (fst (performElasticSearchQuery cfg r st))) = this_stack st
        \<or> this_stack (final (fst (performElasticSearchQuery cfg r st))) = Some [])"
proof (cases r)
  case (Inl err)
  then show ?thesis
    using stage1_callback_frame [of cfg "Inl err" st]
    by (simp add: performElasticSearchQuery_def)
next
  case (Inr response)
  show ?thesis
  proof (cases "stage1_callback cfg (Inr response) st")
    case (Pair out m)
    show ?thesis
    proof (cases out)
      case (Done st')
      with Pair Inr show ?thesis
        using stage1_callback_frame [of cfg "Inr response" st]
        by (simp add: performElasticSearchQuery_def)
    next
      case (Threw e st')
      with Pair Inr show ?thesis
        using stage1_callback_frame [of cfg "Inr response" st]
          stage1_callback_frame [of cfg "Inl e" st']
        by (auto simp: performElasticSearchQuery_def)
    qed
  qed
qed

lemma subseq_drop_middle: "subseq (xs @ ex @ zs) (xs @ ex @ lost @ zs)"
  by (intro list_emb_append_mono list_emb_append2) simp_all

lemma trace_inv_subseq:
  "trace_inv st \<Longrightarrow> subseq (executed st' @ pending st') (executed st @ pending st) \<Longrightarrow>
   length (articles st) \<le> length (articles st') \<Longrightarrow> trace_inv st'"
proof -
  assume inv: "trace_inv st"
    and sub: "subseq (executed st' @ pending st') (executed st @ pending st)"
    and len: "length (articles st) \<le> length (articles st')"
  have "set (executed st' @ pending st') \<subseteq> set (executed st @ pending st)"
  proof
    fix u assume "u \<in> set (executed st' @ pending st')"
    with sub show "u \<in> set (executed st @ pending st)"
      by (auto elim: list_emb_set)
  qed
  with inv len have "\<forall>u \<in> set (executed st' @ pending st'). unit_article u < length (articles st')"
    unfolding trace_inv_def by fastforce
  moreover have "sections_follow (executed st' @ pending st')"
    using inv sub sections_follow_subseq unfolding trace_inv_def by blast
  ultimately show ?thesis
    unfolding trace_inv_def by blast
qed

lemma trace_inv_eager_drain: "trace_inv st \<Longrightarrow> trace_inv (final (eager_drain cfg L st))"
proof -
  assume inv: "trace_inv st"
  obtain ex lost where
    h: "executed (final (eager_drain cfg L st)) = executed st @ ex"
       "pending st = ex @ lost @ pending (final (eager_drain cfg L st))"
       "length (articles (final (eager_drain cfg L st))) = length (articles st)"
    using eager_drain_trace [of cfg L st] by blast
  have "subseq (executed st @ ex @ pending (final (eager_drain cfg L st)))
               (executed st @ ex @ lost @ pending (final (eager_drain cfg L st)))"
    by (rule subseq_drop_middle)
  then have "subseq (executed (final (eager_drain cfg L st)) @ pending (final (eager_drain cfg L st)))
               (executed st @ pending st)"
    unfolding h(1) using h(2) by simp
  then show ?thesis
    by (rule trace_inv_subseq [OF inv]) (simp add: h(3))
qed

lemma trace_inv_scroll_handler: "trace_inv st \<Longrightarrow> trace_inv (final (scroll_handler cfg L y st))"
proof -
  assume inv: "trace_inv st"
  obtain ex lost where
    h: "executed (final (scroll_handler cfg L y st)) = executed st @ ex"
       "pending st = ex @ lost @ pending (final (scroll_handler cfg L y st))"
       "length (articles (final (scroll_handler cfg L y st))) = length (articles st)"
    using scroll_handler_trace [of cfg L y st] by blast
  have "subseq (executed st @ ex @ pending (final (scroll_handler cfg L y st)))
               (executed st @ ex @ lost @ pending (final (scroll_handler cfg L y st)))"
    by (rule subseq_drop_middle)
  then have "subseq (executed (final (scroll_handler cfg L y st)) @ pending (final (scroll_handler cfg L y st)))
               (executed st @ pending st)"
    unfolding h(1) using h(2) by simp
  then show ?thesis
    by (rule trace_inv_subseq [OF inv]) (simp add: h(3))
qed

lemma trace_inv_aggregate: "trace_inv st \<Longrightarrow> trace_inv (final (aggregate cfg g result rs st))"
proof -
  assume inv: "trace_inv st"
  let ?st' = "final (aggregate cfg g result rs st)"
  obtain k where
    k: "pending ?st' = pending st @ units_from g (length (articles st)) (take k rs)"
       "executed ?st' = executed st"
       "length (articles st) + k \<le> length (articles ?st')" "k \<le> length rs"
    using aggregate_trace [of rs cfg g result st] by blast
  have "sections_follow ((executed st @ pending st) @ units_from g (length (articles st)) (take k rs))"
    using inv unfolding trace_inv_def by (intro sections_follow_install) simp_all
  then have a: "sections_follow (executed ?st' @ pending ?st')"
    using k(1,2) by simp
  have "\<forall>u \<in> set (units_from g (length (articles st)) (take k rs)). unit_article u < length (articles ?st')"
    using units_from_articles [of _ g "length (articles st)" "take k rs"] k(3,4) by fastforce
  moreover have "\<forall>u \<in> set (executed st @ pending st). unit_article u < length (articles ?st')"
    using inv k(3) unfolding trace_inv_def by fastforce
  ultimately have "\<forall>u \<in> set (executed ?st' @ pending ?st'). unit_article u < length (articles ?st')"
    using k(1,2) by auto
  with a show ?thesis
    unfolding trace_inv_def by blast
qed

lemma trace_inv_step: "trace_inv st \<Longrightarrow> trace_inv (step cfg L st e)"
proof (cases e)
  case (Update ev)
  assume "trace_inv st"
  then show ?thesis
    using Update update_frame [of cfg ev st] by (simp add: trace_inv_def pending_def)
next
  case (Scroll y)
  assume "trace_inv st"
  then show ?thesis
    using Scroll trace_inv_scroll_handler by simp
next
  case (Stage1Done r)
  assume inv: "trace_inv st"
  let ?st' = "final (fst (performElasticSearchQuery cfg r st))"
  have f: "executed ?st' = executed st" "articles ?st' = articles st"
    "pending ?st' = pending st \<or> pending ?st' = []"
    using performElasticSearchQuery_frame [of cfg r st] by (auto simp: pending_def)
  have "subseq (executed ?st' @ pending ?st') (executed st @ pending st)"
    using f(1,3) by auto
  then have "trace_inv ?st'"
    by (rule trace_inv_subseq [OF inv]) (simp add: f(2))
  with Stage1Done show ?thesis by simp
next
  case (Stage2Done g result r)
  assume inv: "trace_inv st"
  show ?thesis
  proof (cases r)
    case (Inl err)
    with inv Stage2Done show ?thesis
      by (simp add: stage2_callback_def trace_inv_def pending_def)
  next
    case (Inr rs)
    have a: "trace_inv (final (aggregate cfg g result rs st))"
      using inv by (rule trace_inv_aggregate)
    show ?thesis
    proof (cases "aggregate cfg g result rs st")
      case (Threw e st')
      with a Inr Stage2Done show ?thesis
        by (simp add: stage2_callback_def)
    next
      case (Done st1)
      with a have "trace_inv st1" by simp
      then have "trace_inv (final (eager_drain cfg L st1))"
        by (rule trace_inv_eager_drain)
      with Done \<open>trace_inv st1\<close> Inr Stage2Done show ?thesis
        by (simp add: stage2_callback_def)
    qed
  qed
qed

lemma trace_inv_run: "trace_inv st \<Longrightarrow> trace_inv (run cfg L evs st)"
  unfolding run_def
  by (induction evs arbitrary: st) (simp_all add: trace_inv_step)

lemma trace_inv_initial: "trace_inv (initial_state cfg)"
  by (simp add: trace_inv_def initial_state_def pending_def)

lemma forEach_render_all:
  "\<forall>u \<in> set us. renders cfg u \<Longrightarrow>
   \<exists>st'. forEach_render cfg us st = Done st' \<and> executed st' = executed st @ us
     \<and> this_stack st' = this_stack st"
proof (induction us arbitrary: st)
  case Nil
  then show ?case by simp
next
  case (Cons u us)
  then obtain st1 where s1: "exec_unit cfg u st = Done st1"
    using exec_unit_renders [of cfg u st] by auto
  from Cons obtain st' where
    "forEach_render cfg us st1 = Done st'" "executed st' = executed st1 @ us"
    "this_stack st' = this_stack st1"
    by fastforce
  with s1 exec_unit_Done [OF s1] show ?case by simp
qed

lemma scroll_handler_batches:
  "this_stack st = Some q \<Longrightarrow> \<forall>u \<in> set q. renders cfg u \<Longrightarrow>
   \<exists>k st'. scroll_handler cfg L y st = Done st'
     \<and> this_stack st' = Some (drop (10 * k) q)
     \<and> executed st' = executed st @ take (10 * k) q
     \<and> (k = 0 \<longleftrightarrow> q = [] \<or> \<not> near_bottom L y st)
     \<and> (drop (10 * k) q = [] \<or> \<not> near_bottom L y st')"
proof (induction cfg L y st arbitrary: q rule: scroll_handler.induct)
  case (1 cfg L y st)
  show ?case
  proof (cases "length q \<noteq> 0 \<and> near_bottom L y st")
    case False
    then have "scroll_handler cfg L y st = Done st"
      using "1.prems"(1) by (subst scroll_handler.simps) auto
    with False "1.prems"(1) show ?thesis
      by (intro exI [of _ 0] exI [of _ st]) auto
  next
    case True
    let ?s0 = "st\<lparr>this_stack := Some (drop 10 q)\<rparr>"
    have "\<forall>u \<in> set (take 10 q). renders cfg u"
      using "1.prems"(2) by (meson in_set_takeD)
    then obtain st1 where
      f: "forEach_render cfg (take 10 q) ?s0 = Done st1"
         "executed st1 = executed ?s0 @ take 10 q" "this_stack st1 = this_stack ?s0"
      using forEach_render_all [of "take 10 q" cfg ?s0] by blast
    have s1: "this_stack st1 = Some (drop 10 q)" using f(3) by simp
    have r1: "\<forall>u \<in> set (drop 10 q). renders cfg u"
      using "1.prems"(2) by (meson in_set_dropD)
    from "1.IH" [OF "1.prems"(1) True f(1) s1 r1] obtain k st' where
      h: "scroll_handler cfg L y st1 = Done st'"
         "this_stack st' = Some (drop (10 * k) (drop 10 q))"
         "executed st' = executed st1 @ take (10 * k) (drop 10 q)"
         "drop (10 * k) (drop 10 q) = [] \<or> \<not> near_bottom L y st'"
      by blast
    have e: "scroll_handler cfg L y st = scroll_handler cfg L y st1"
      using "1.prems"(1) True f(1) by (subst scroll_handler.simps) simp
    have t: "take (10 * Suc k) q = take 10 q @ take (10 * k) (drop 10 q)"
      using take_add [of 10 "10 * k" q] by simp
    have d: "drop (10 * Suc k) q = drop (10 * k) (drop 10 q)"
      by (simp add: add.commute)
    have "executed st' = executed st @ take (10 * Suc k) q"
      unfolding t using h(3) f(2) by simp
    moreover have "this_stack st' = Some (drop (10 * Suc k) q)"
      unfolding d using h(2) .
    moreover have "drop (10 * Suc k) q = [] \<or> \<not> near_bottom L y st'"
      unfolding d using h(4) .
    ultimately show ?thesis
      unfolding e using h(1) True
      by (intro exI [of _ "Suc k"] exI [of _ st']) simp
  qed
qed

lemma documents_first_prefix:
  "documents_first seen (xs @ ys) \<Longrightarrow> documents_first seen xs"
proof (induction xs arbitrary: seen)
  case Nil
  then show ?case by simp
next
  case (Cons u xs)
  then show ?case by (cases u) auto
qed

lemma documents_first_sections:
  "a \<in> set seen \<Longrightarrow>
   documents_first seen (map (SectionUnit g a) secs @ ys) = documents_first seen ys"
  by (induction secs) auto

lemma documents_first_units_from: "documents_first seen (units_from g a0 rs)"
proof (induction rs arbitrary: seen a0)
  case Nil
  then show ?case by simp
next
  case (Cons secs rs)
  have "documents_first (a0 # seen) (map (SectionUnit g a0) secs @ units_from g (Suc a0) rs)"
    using Cons.IH [of "a0 # seen" "Suc a0"] by (simp add: documents_first_sections)
  then show ?case by simp
qed

lemma documents_first_install:
  "documents_first seen xs \<Longrightarrow> documents_first seen (xs @ units_from g a0 rs)"
proof (induction xs arbitrary: seen)
  case Nil
  then show ?case by (simp add: documents_first_units_from)
next
  case (Cons u xs)
  then show ?case by (cases u) auto
qed

lemma units_from_renders:
  "\<forall>section_hits \<in> set rs. \<forall>s \<in> set section_hits.
      (case render_section cfg s of Inl e \<Rightarrow> False | Inr n \<Rightarrow> True) \<Longrightarrow>
   u \<in> set (units_from g a0 rs) \<Longrightarrow> renders cfg u"
  by (induction rs arbitrary: a0) auto

lemma eager_drain_all:
  "this_stack st = Some q \<Longrightarrow> \<forall>u \<in> set q. renders cfg u \<Longrightarrow>
   \<exists>k st'. eager_drain cfg L st = Done st'
     \<and> this_stack st' = Some (drop k q) \<and> executed st' = executed st @ take k q"
proof (induction cfg L st arbitrary: q rule: eager_drain.induct)
  case (1 cfg L st)
  show ?case
  proof (cases q)
    case Nil
    with "1.prems"(1) have "eager_drain cfg L st = Done st"
      by (subst eager_drain.simps) simp
    with Nil "1.prems"(1) show ?thesis
      by (intro exI [of _ 0] exI [of _ st]) simp
  next
    case (Cons u us)
    show ?thesis
    proof (cases "has_room L st")
      case False
      with Cons "1.prems"(1) have "eager_drain cfg L st = Done st"
        by (subst eager_drain.simps) simp
      with "1.prems"(1) show ?thesis
        by (intro exI [of _ 0] exI [of _ st]) simp
    next
      case True
      let ?s0 = "st\<lparr>this_stack := Some us\<rparr>"
      from "1.prems"(2) Cons obtain st1 where x: "exec_unit cfg u ?s0 = Done st1"
        using exec_unit_renders [of cfg u ?s0] by auto
      have s1: "this_stack st1 = Some us" "executed st1 = executed st @ [u]"
        using exec_unit_Done [OF x] by simp_all
      have r1: "\<forall>v \<in> set us. renders cfg v"
        using "1.prems"(2) Cons by simp
      from "1.IH" [OF "1.prems"(1) Cons True x s1(1) r1] obtain k st' where
        h: "eager_drain cfg L st1 = Done st'" "this_stack st' = Some (drop k us)"
           "executed st' = executed st1 @ take k us"
        by blast
      have e: "eager_drain cfg L st = eager_drain cfg L st1"
        using "1.prems"(1) Cons True x by (subst eager_drain.simps) simp
      show ?thesis
        unfolding e using h s1(2) Cons
        by (intro exI [of _ "Suc k"] exI [of _ st']) simp
    qed
  qed
qed

lemma order_inv_eager_drain:
  "order_inv cfg st \<Longrightarrow> order_inv cfg (final (eager_drain cfg L st))"
proof (cases "this_stack st")
  case None
  assume "order_inv cfg st"
  moreover have "eager_drain cfg L st = Threw TypeError st"
    using None by (subst eager_drain.simps) simp
  ultimately show ?thesis by simp
next
  case (Some q)
  assume inv: "order_inv cfg st"
  then have r: "\<forall>u \<in> set q. renders cfg u"
    using Some by (simp add: order_inv_def)
  from eager_drain_all [OF Some r, of L] obtain k st' where
    h: "eager_drain cfg L st = Done st'" "this_stack st' = Some (drop k q)"
       "executed st' = executed st @ take k q"
    by blast
  have "executed st' @ pending st' = executed st @ pending st"
    using h Some by simp
  moreover have "\<forall>u \<in> set (pending st'). renders cfg u"
    using h(2) r by (auto dest: in_set_dropD)
  ultimately show ?thesis
    using inv h(1) by (simp add: order_inv_def)
qed

lemma order_inv_scroll_handler:
  "order_inv cfg st \<Longrightarrow> order_inv cfg (final (scroll_handler cfg L y st))"
proof (cases "this_stack st")
  case None
  assume "order_inv cfg st"
  moreover have "scroll_handler cfg L y st = Threw TypeError st"
    using None by (subst scroll_handler.simps) simp
  ultimately show ?thesis by simp
next
  case (Some q)
  assume inv: "order_inv cfg st"
  then have r: "\<forall>u \<in> set q. renders cfg u"
    using Some by (simp add: order_inv_def)
  from scroll_handler_batches [OF Some r, of L y] obtain k st' where
    h: "scroll_handler cfg L y st = Done st'" "this_stack st' = Some (drop (10 * k) q)"
       "executed st' = executed st @ take (10 * k) q"
    by blast
  have "executed st' @ pending st' = executed st @ pending st"
    using h Some by simp
  moreover have "\<forall>u \<in> set (pending st'). renders cfg u"
    using h(2) r by (auto dest: in_set_dropD)
  ultimately show ?thesis
    using inv h(1) by (simp add: order_inv_def)
qed

lemma order_inv_step:
  "order_inv cfg st \<Longrightarrow> sections_render cfg e \<Longrightarrow> order_inv cfg (step cfg L st e)"
proof (cases e)
  case (Update ev)
  assume "order_inv cfg st"
  then show ?thesis
    using Update update_frame [of cfg ev st] by (simp add: order_inv_def pending_def)
next
  case (Scroll y)
  assume "order_inv cfg st"
  then show ?thesis
    using Scroll order_inv_scroll_handler by simp
next
  case (Stage1Done r)
  assume inv: "order_inv cfg st"
  let ?st' = "final (fst (performElasticSearchQuery cfg r st))"
  have f: "executed ?st' = executed st" "pending ?st' = pending st \<or> pending ?st' = []"
    using performElasticSearchQuery_frame [of cfg r st] by (auto simp: pending_def)
  have "documents_first [] (executed st)"
    using inv documents_first_prefix unfolding order_inv_def by blast
  with inv f have "order_inv cfg ?st'"
    unfolding order_inv_def by auto
  with Stage1Done show ?thesis by simp
next
  case (Stage2Done g result r)
  assume inv: "order_inv cfg st" and wf: "sections_render cfg e"
  show ?thesis
  proof (cases r)
    case (Inl err)
    with inv Stage2Done show ?thesis
      by (simp add: stage2_callback_def order_inv_def pending_def)
  next
    case (Inr rs)
    let ?st1 = "final (aggregate cfg g result rs st)"
    obtain k where
      k: "pending ?st1 = pending st @ units_from g (length (articles st)) (take k rs)"
         "executed ?st1 = executed st"
      using aggregate_trace [of rs cfg g result st] by blast
    have "\<forall>section_hits \<in> set (take k rs). \<forall>s \<in> set section_hits.
            (case render_section cfg s of Inl e \<Rightarrow> False | Inr n \<Rightarrow> True)"
      using wf Stage2Done Inr by (auto dest: in_set_takeD)
    then have "\<forall>u \<in> set (units_from g (length (articles st)) (take k rs)). renders cfg u"
      using units_from_renders by blast
    moreover have "documents_first []
        ((executed st @ pending st) @ units_from g (length (articles st)) (take k rs))"
      using inv unfolding order_inv_def by (intro documents_first_install) simp
    ultimately have a: "order_inv cfg ?st1"
      using inv k unfolding order_inv_def by auto
    show ?thesis
    proof (cases "aggregate cfg g result rs st")
      case (Threw e' st')
      with a Inr Stage2Done show ?thesis
        by (simp add: stage2_callback_def)
    next
      case (Done st1)
      with a have "order_inv cfg st1" by simp
      then have "order_inv cfg (final (eager_drain cfg L st1))"
        by (rule order_inv_eager_drain)
      with Done \<open>order_inv cfg st1\<close> Inr Stage2Done show ?thesis
        by (simp add: stage2_callback_def)
    qed
  qed
qed

lemma order_inv_run:
  "order_inv cfg st \<Longrightarrow> \<forall>e \<in> set evs. sections_render cfg e \<Longrightarrow>
   order_inv cfg (run cfg L evs st)"
  unfolding run_def
  by (induction evs arbitrary: st) (simp_all add: order_inv_step)

lemma order_inv_initial: "order_inv cfg (initial_state cfg)"
  by (simp add: order_inv_def initial_state_def pending_def)

lemma find_teaser_throws:
  "s \<in> set secs \<Longrightarrow> sec_title s = t \<Longrightarrow> sec_highlight s = None \<Longrightarrow>
   find_teaser t secs acc = Inl TypeError"
proof (induction secs arbitrary: acc)
  case Nil
  then show ?case by simp
next
  case (Cons x secs)
  show ?case
  proof (cases "x = s")
    case True
    with Cons.prems show ?thesis by simp
  next
    case False
    with Cons.prems have "s \<in> set secs" by simp
    then have "\<And>acc. find_teaser t secs acc = Inl TypeError"
      using Cons.IH Cons.prems by simp
    then show ?thesis by (simp split: option.splits)
  qed
qed

lemma make_article_throws:
  "\<not> aggregable hit secs \<Longrightarrow> make_article cfg hit secs = Inl TypeError"
proof -
  assume "\<not> aggregable hit secs"
  then consider "hit_highlight hit = None"
    | s where "s \<in> set secs" "sec_title s = source_title hit" "sec_highlight s = None"
    by (auto simp: aggregable_def)
  then show ?thesis
  proof cases
    case 1
    then show ?thesis by (simp add: make_article_def)
  next
    case 2
    then have "find_teaser (source_title hit) secs (Some []) = Inl TypeError"
      by (rule find_teaser_throws)
    then show ?thesis by (simp add: make_article_def Let_def split: option.splits)
  qed
qed

lemma make_article_returns:
  "aggregable hit secs \<Longrightarrow> \<exists>article. make_article cfg hit secs = Inr article"
proof -
  assume "aggregable hit secs"
  then have h: "hit_highlight hit \<noteq> None"
    and s: "\<forall>s \<in> set secs. sec_title s = source_title hit \<longrightarrow> sec_highlight s \<noteq> None"
    by (simp_all add: aggregable_def)
  from s have "\<exists>v. find_teaser (source_title hit) secs (Some []) = Inr v"
    by (simp add: find_teaser_total)
  with h show ?thesis
    by (auto simp: make_article_def Let_def)
qed

lemma render_section_renders:
  "(\<exists>node. render_section cfg s = Inr node) \<longleftrightarrow> section_renders s"
  by (auto simp: render_section_def section_renders_def first_fragment_def Let_def
      split: option.splits list.splits)

lemma aggregate_exact:
  "this_stack st = Some q \<Longrightarrow>
   \<exists>arts. articles (final (aggregate cfg g result rs st)) = articles st @ arts
     \<and> length arts = aggregated_count result rs
     \<and> (\<forall>i < aggregated_count result rs. make_article cfg (result ! i) (rs ! i) = Inr (arts ! i))
     \<and> this_stack (final (aggregate cfg g result rs st))
         = Some (q @ units_from g (length (articles st)) (take (aggregated_count result rs) rs))
     \<and> executed (final (aggregate cfg g result rs st)) = executed st
     \<and> this_list (final (aggregate cfg g result rs st)) = this_list st
     \<and> (threw (aggregate cfg g result rs st) \<longleftrightarrow> aggregated_count result rs < length rs)"
proof (induction cfg g result rs st arbitrary: q rule: aggregate.induct)
  case (1 cfg g result st)
  then show ?case by (simp add: aggregated_count_def)
next
  case (2 cfg g section_hits rest st)
  then show ?case by (simp add: aggregated_count_def)
next
  case (3 cfg g hit result section_hits rest st)
  show ?case
  proof (cases "aggregable hit section_hits")
    case False
    then have "make_article cfg hit section_hits = Inl TypeError"
      by (rule make_article_throws)
    with False "3.prems" show ?thesis
      by (simp add: aggregated_count_def)
  next
    case True
    then obtain article where Inr: "make_article cfg hit section_hits = Inr article"
      using make_article_returns [of hit section_hits cfg] by blast
    let ?a = "length (articles st)"
    let ?st1 = "st\<lparr>articles := articles st @ [article]\<rparr>"
    let ?new = "DocumentUnit g ?a # map (SectionUnit g ?a) section_hits"
    let ?st2 = "?st1\<lparr>this_stack := Some (q @ ?new)\<rparr>"
    let ?k = "aggregated_count result rest"
    have s1: "this_stack ?st1 = Some q" using "3.prems" by simp
    have s2: "this_stack ?st2 = Some (q @ ?new)" by simp
    have e: "aggregate cfg g (hit # result) (section_hits # rest) st
               = aggregate cfg g result rest ?st2"
      using Inr "3.prems" by (simp add: Let_def)
    have c: "aggregated_count (hit # result) (section_hits # rest) = Suc ?k"
      using True by (simp add: aggregated_count_def)
    from "3.IH" [OF Inr refl refl s1 s2] obtain arts where
      h: "articles (final (aggregate cfg g result rest ?st2)) = articles ?st2 @ arts"
         "length arts = ?k"
         "\<forall>i < ?k. make_article cfg (result ! i) (rest ! i) = Inr (arts ! i)"
         "this_stack (final (aggregate cfg g result rest ?st2))
            = Some ((q @ ?new) @ units_from g (length (articles ?st2)) (take ?k rest))"
         "executed (final (aggregate cfg g result rest ?st2)) = executed ?st2"
         "this_list (final (aggregate cfg g result rest ?st2)) = this_list ?st2"
         "threw (aggregate cfg g result rest ?st2) \<longleftrightarrow> ?k < length rest"
      by blast
    have m: "\<forall>i < Suc ?k. make_article cfg ((hit # result) ! i) ((section_hits # rest) ! i)
               = Inr ((article # arts) ! i)"
    proof (intro allI impI)
      fix i assume "i < Suc ?k"
      then show "make_article cfg ((hit # result) ! i) ((section_hits # rest) ! i)
               = Inr ((article # arts) ! i)"
        using Inr h(3) by (cases i) simp_all
    qed
    show ?thesis
      unfolding e c using h(1,2,4,5,6,7) m
      by (intro exI [of _ "article # arts"]) simp
  qed
qed

lemma forEach_render_stack:
  "this_stack (final (forEach_render cfg us st)) = this_stack st"
  using forEach_render_trace [of cfg us st] by blast

lemma batch_stack: "this_stack (final (batch cfg st)) = Some (drop 10 (pending st))"
  by (simp add: batch_def forEach_render_stack)

lemma scroll_handler_exact:
  "this_stack st \<noteq> None \<Longrightarrow>
   \<exists>k. final (scroll_handler cfg L y st) = batches cfg k st
     \<and> (\<forall>j < k. pending (batches cfg j st) \<noteq> [] \<and> near_bottom L y (batches cfg j st))
     \<and> (\<forall>j. Suc j < k \<longrightarrow> \<not> threw (batch cfg (batches cfg j st)))
     \<and> (threw (scroll_handler cfg L y st)
          \<longleftrightarrow> 0 < k \<and> threw (batch cfg (batches cfg (k - 1) st)))
     \<and> (\<not> threw (scroll_handler cfg L y st)
          \<longrightarrow> pending (batches cfg k st) = [] \<or> \<not> near_bottom L y (batches cfg k st))"
proof (induction cfg L y st rule: scroll_handler.induct)
  case (1 cfg L y st)
  from "1.prems" obtain q where q: "this_stack st = Some q" by auto
  then have p: "pending st = q" by (simp add: pending_def)
  show ?case
  proof (cases "length q \<noteq> 0 \<and> near_bottom L y st")
    case False
    then have "scroll_handler cfg L y st = Done st"
      using q by (subst scroll_handler.simps) auto
    with False p show ?thesis
      by (intro exI [of _ 0]) auto
  next
    case True
    have b: "batch cfg st = forEach_render cfg (take 10 q) (st\<lparr>this_stack := Some (drop 10 q)\<rparr>)"
      by (simp add: batch_def p)
    show ?thesis
    proof (cases "batch cfg st")
      case (Threw e st1)
      then have "scroll_handler cfg L y st = Threw e st1"
        using q True b by (subst scroll_handler.simps) simp
      with Threw True p show ?thesis
        by (intro exI [of _ "Suc 0"]) simp
    next
      case (Done st1)
      then have e: "scroll_handler cfg L y st = scroll_handler cfg L y st1"
        using q True b by (subst scroll_handler.simps) simp
      have x: "forEach_render cfg (take 10 q) (st\<lparr>this_stack := Some (drop 10 q)\<rparr>) = Done st1"
        using Done b by simp
      have s1: "this_stack st1 \<noteq> None"
        using batch_stack [of cfg st] Done by simp
      from "1.IH" [OF q True x s1] obtain k where
        h: "final (scroll_handler cfg L y st1) = batches cfg k st1"
           "\<forall>j < k. pending (batches cfg j st1) \<noteq> [] \<and> near_bottom L y (batches cfg j st1)"
           "\<forall>j. Suc j < k \<longrightarrow> \<not> threw (batch cfg (batches cfg j st1))"
           "threw (scroll_handler cfg L y st1)
              \<longleftrightarrow> 0 < k \<and> threw (batch cfg (batches cfg (k - 1) st1))"
           "\<not> threw (scroll_handler cfg L y st1)
              \<longrightarrow> pending (batches cfg k st1) = [] \<or> \<not> near_bottom L y (batches cfg k st1)"
        by blast
      have n: "batches cfg (Suc j) st = batches cfg j st1" for j
        using Done by simp
      have a: "\<forall>j < Suc k. pending (batches cfg j st) \<noteq> [] \<and> near_bottom L y (batches cfg j st)"
      proof (intro allI impI)
        fix j assume "j < Suc k"
        then show "pending (batches cfg j st) \<noteq> [] \<and> near_bottom L y (batches cfg j st)"
          using True p h(2) n by (cases j) auto
      qed
      have c: "\<forall>j. Suc j < Suc k \<longrightarrow> \<not> threw (batch cfg (batches cfg j st))"
      proof (intro allI impI)
        fix j assume "Suc j < Suc k"
        then show "\<not> threw (batch cfg (batches cfg j st))"
          using Done h(3) n by (cases j) auto
      qed
      have d: "threw (scroll_handler cfg L y st1)
              \<longleftrightarrow> 0 < Suc k \<and> threw (batch cfg (batches cfg (Suc k - 1) st))"
      proof (cases k)
        case 0
        with h(4) Done show ?thesis by simp
      next
        case (Suc k')
        with h(4) n [of k'] show ?thesis by simp
      qed
      show ?thesis
        unfolding e using h(1,5) a c d n
        by (intro exI [of _ "Suc k"]) simp
    qed
  qed
qed

lemma batch_renders:
  "this_stack st = Some q \<Longrightarrow> \<forall>u \<in> set q. renders cfg u \<Longrightarrow>
   \<exists>st'. batch cfg st = Done st' \<and> this_stack st' = Some (drop 10 q)
     \<and> executed st' = executed st @ take 10 q"
proof -
  assume q: "this_stack st = Some q" and r: "\<forall>u \<in> set q. renders cfg u"
  let ?s0 = "st\<lparr>this_stack := Some (drop 10 q)\<rparr>"
  have "\<forall>u \<in> set (take 10 q). renders cfg u"
    using r by (meson in_set_takeD)
  then obtain st' where
    "forEach_render cfg (take 10 q) ?s0 = Done st'"
    "executed st' = executed ?s0 @ take 10 q" "this_stack st' = this_stack ?s0"
    using forEach_render_all [of "take 10 q" cfg ?s0] by blast
  then show ?thesis
    using q by (simp add: batch_def pending_def)
qed

lemma batches_renders:
  "this_stack st = Some q \<Longrightarrow> \<forall>u \<in> set q. renders cfg u \<Longrightarrow>
   this_stack (batches cfg j st) = Some (drop (10 * j) q)
   \<and> executed (batches cfg j st) = executed st @ take (10 * j) q
   \<and> \<not> threw (batch cfg (batches cfg j st))"
proof (induction j arbitrary: st q)
  case 0
  then show ?case
    using batch_renders [of st q cfg] by auto
next
  case (Suc j)
  from batch_renders [OF Suc.prems] obtain st1 where
    b: "batch cfg st = Done st1" "this_stack st1 = Some (drop 10 q)"
       "executed st1 = executed st @ take 10 q"
    by blast
  have r1: "\<forall>u \<in> set (drop 10 q). renders cfg u"
    using Suc.prems(2) by (meson in_set_dropD)
  have t: "take (10 * Suc j) q = take 10 q @ take (10 * j) (drop 10 q)"
    using take_add [of 10 "10 * j" q] by simp
  have d: "drop (10 * Suc j) q = drop (10 * j) (drop 10 q)"
    by (simp add: add.commute)
  from Suc.IH [OF b(2) r1] show ?case
    unfolding t d using b by simp
qed

lemma eager_drain_exact:
  "this_stack st \<noteq> None \<Longrightarrow>
   \<exists>k. final (eager_drain cfg L st) = shifts cfg k st
     \<and> (\<forall>j < k. pending (shifts cfg j st) \<noteq> [] \<and> has_room L (shifts cfg j st))
     \<and> (\<forall>j. Suc j < k \<longrightarrow> \<not> threw (shift cfg (shifts cfg j st)))
     \<and> (threw (eager_drain cfg L st)
          \<longleftrightarrow> 0 < k \<and> threw (shift cfg (shifts cfg (k - 1) st)))
     \<and> (\<not> threw (eager_drain cfg L st)
          \<longrightarrow> pending (shifts cfg k st) = [] \<or> \<not> has_room L (shifts cfg k st))"
proof (induction cfg L st rule: eager_drain.induct)
  case (1 cfg L st)
  from "1.prems" obtain q where q: "this_stack st = Some q" by auto
  then have p: "pending st = q" by (simp add: pending_def)
  show ?case
  proof (cases "q \<noteq> [] \<and> has_room L st")
    case False
    then have "eager_drain cfg L st = Done st"
      using q by (subst eager_drain.simps) (auto split: list.splits)
    with False p show ?thesis
      by (intro exI [of _ 0]) auto
  next
    case True
    then obtain u us where c: "q = u # us" by (cases q) auto
    have b: "shift cfg st = exec_unit cfg u (st\<lparr>this_stack := Some us\<rparr>)"
      by (simp add: shift_def p c)
    show ?thesis
    proof (cases "shift cfg st")
      case (Threw e st1)
      then have "eager_drain cfg L st = Threw e st1"
        using q c True b by (subst eager_drain.simps) simp
      with Threw True p show ?thesis
        by (intro exI [of _ "Suc 0"]) simp
    next
      case (Done st1)
      then have e: "eager_drain cfg L st = eager_drain cfg L st1"
        using q c True b by (subst eager_drain.simps) simp
      have x: "exec_unit cfg u (st\<lparr>this_stack := Some us\<rparr>) = Done st1"
        using Done b by simp
      have s1: "this_stack st1 \<noteq> None"
        using exec_unit_Done [OF x] by simp
      have r: "has_room L st" using True by simp
      from "1.IH" [OF q c r x s1] obtain k where
        h: "final (eager_drain cfg L st1) = shifts cfg k st1"
           "\<forall>j < k. pending (shifts cfg j st1) \<noteq> [] \<and> has_room L (shifts cfg j st1)"
           "\<forall>j. Suc j < k \<longrightarrow> \<not> threw (shift cfg (shifts cfg j st1))"
           "threw (eager_drain cfg L st1)
              \<longleftrightarrow> 0 < k \<and> threw (shift cfg (shifts cfg (k - 1) st1))"
           "\<not> threw (eager_drain cfg L st1)
              \<longrightarrow> pending (shifts cfg k st1) = [] \<or> \<not> has_room L (shifts cfg k st1)"
        by blast
      have n: "shifts cfg (Suc j) st = shifts cfg j st1" for j
        using Done by simp
      have a: "\<forall>j < Suc k. pending (shifts cfg j st) \<noteq> [] \<and> has_room L (shifts cfg j st)"
      proof (intro allI impI)
        fix j assume "j < Suc k"
        then show "pending (shifts cfg j st) \<noteq> [] \<and> has_room L (shifts cfg j st)"
          using True p h(2) n by (cases j) auto
      qed
      have c': "\<forall>j. Suc j < Suc k \<longrightarrow> \<not> threw (shift cfg (shifts cfg j st))"
      proof (intro allI impI)
        fix j assume "Suc j < Suc k"
        then show "\<not> threw (shift cfg (shifts cfg j st))"
          using Done h(3) n by (cases j) auto
      qed
      have d: "threw (eager_drain cfg L st1)
              \<longleftrightarrow> 0 < Suc k \<and> threw (shift cfg (shifts cfg (Suc k - 1) st))"
      proof (cases k)
        case 0
        with h(4) Done show ?thesis by simp
      next
        case (Suc k')
        with h(4) n [of k'] show ?thesis by simp
      qed
      show ?thesis
        unfolding e using h(1,5) a c' d n
        by (intro exI [of _ "Suc k"]) simp
    qed
  qed
qed

lemma aggregated_count_full:
  "aggregated_count result rs = length rs
     \<longleftrightarrow> length rs \<le> length result \<and> (\<forall>i < length rs. aggregable (result ! i) (rs ! i))"
proof (induction rs arbitrary: result)
  case Nil
  then show ?case by (simp add: aggregated_count_def)
next
  case (Cons secs rs)
  show ?case
  proof (cases result)
    case Nil
    then show ?thesis by (simp add: aggregated_count_def)
  next
    case (Cons hit result')
    have ih: "aggregated_count result' rs = length rs
      \<longleftrightarrow> length rs \<le> length result' \<and> (\<forall>i < length rs. aggregable (result' ! i) (rs ! i))"
      by (rule Cons.IH)
    show ?thesis
    proof (cases "aggregable hit secs")
      case False
      then show ?thesis
        using Cons by (auto simp: aggregated_count_def)
    next
      case True
      have "(\<forall>i < Suc (length rs). aggregable ((hit # result') ! i) ((secs # rs) ! i))
              \<longleftrightarrow> (\<forall>i < length rs. aggregable (result' ! i) (rs ! i))"
        using True by (auto simp: less_Suc_eq_0_disj)
      moreover have "aggregated_count (hit # result') (secs # rs) = Suc (aggregated_count result' rs)"
        using True by (simp add: aggregated_count_def)
      ultimately show ?thesis
        using Cons ih by simp
    qed
  qed
qed

lemma eager_drain_room:
  "\<forall>s. has_room L s \<Longrightarrow> this_stack st = Some q \<Longrightarrow> \<forall>u \<in> set q. renders cfg u \<Longrightarrow>
   \<exists>st'. eager_drain cfg L st = Done st' \<and> this_stack st' = Some []
     \<and> executed st' = executed st @ q"
proof (induction q arbitrary: st)
  case Nil
  then have "eager_drain cfg L st = Done st"
    by (subst eager_drain.simps) simp
  with Nil show ?case by simp
next
  case (Cons u us)
  let ?s0 = "st\<lparr>this_stack := Some us\<rparr>"
  from Cons.prems obtain st1 where x: "exec_unit cfg u ?s0 = Done st1"
    using exec_unit_renders [of cfg u ?s0] by auto
  have s1: "this_stack st1 = Some us" "executed st1 = executed st @ [u]"
    using exec_unit_Done [OF x] by simp_all
  have r1: "\<forall>v \<in> set us. renders cfg v"
    using Cons.prems(3) by simp
  from Cons.IH [OF Cons.prems(1) s1(1) r1] obtain st' where
    h: "eager_drain cfg L st1 = Done st'" "this_stack st' = Some []"
       "executed st' = executed st1 @ us"
    by blast
  have "eager_drain cfg L st = eager_drain cfg L st1"
    using Cons.prems(1,2) x by (subst eager_drain.simps) simp
  with h s1(2) show ?case by simp
qed

section \<open>Ordering of render units\<close>

text \<open>
  C1 (as stated, refuted). The responses are aligned with the two hits and the
  aggregation returns. The first scroll event splices ten units: the document unit of
  the first article, its eight section units and the document unit of the second
  article. The first section has no \<^verbatim>\<open>highlight\<close> object, its renderer throws, and the
  rest of the batch is dropped with the second document unit in it. The next scroll event
  executes the section unit of the second article, whose document unit has not been
  executed and never will be.
\<close>

theorem section_without_document_counterexample:
  "length long_response = length two_docs
   \<and> executed (run example_config crowded_layout
        [focus, keyup ''a'', Stage1Done (Inr \<lparr>hits = two_docs, total = 2\<rparr>),
         Stage2Done 1 two_docs (Inr long_response), Scroll 20, Scroll 50]
        (initial_state example_config))
       = [DocumentUnit 1 0, SectionUnit 1 1 (example_section ''Install'' None)]
   \<and> pending (run example_config crowded_layout
        [focus, keyup ''a'', Stage1Done (Inr \<lparr>hits = two_docs, total = 2\<rparr>),
         Stage2Done 1 two_docs (Inr long_response), Scroll 20, Scroll 50]
        (initial_state example_config)) = []
   \<and> \<not> documents_first []
        [DocumentUnit 1 0, SectionUnit 1 1 (example_section ''Install'' None)]"
  by code_simp

text \<open>
  C1 (amended). Let the stack be defined. The aggregation creates one article per pair
  of hit and response, for as many leading pairs as are \<open>aggregable\<close> (exactly the pairs
  for which building the article does not throw); the article at position \<open>i\<close> is the
  one built from hit \<open>i\<close> and response \<open>i\<close>, and what is pushed behind the pending units
  is, per article in stage-1 order, its document unit followed by its section units in
  response order (\<open>units_from\<close>). The aggregation returns exactly when all responses
  were reached, which for responses aligned with the hits means that every pair is
  aggregable. A section renderer returns exactly when \<open>section_renders\<close> holds.

  Each drain path executes a prefix of the stack in stack order and leaves a suffix
  pending; between the two lies only what an exception dropped, and nothing when the
  drain returns. The eager drain is exactly \<open>k\<close> shifts, each of which found the stack
  non-empty and room in the container, and it ends at the first state without room or
  without units, or with the shift that threw. The scroll listener is exactly \<open>k\<close>
  batches in the same way, with the position within 16 units of the bottom in place of
  the room.

  In every run of the component from its initial state, no document unit is executed
  after a section unit of the same article. When the section hits of all stage-2
  responses render, every section unit is executed after the document unit of its
  article.
\<close>

theorem render_units_in_order:
  "(this_stack st = Some q \<longrightarrow>
      (\<exists>arts. articles (final (aggregate cfg g result rs st)) = articles st @ arts
         \<and> length arts = aggregated_count result rs
         \<and> (\<forall>i < aggregated_count result rs.
               make_article cfg (result ! i) (rs ! i) = Inr (arts ! i))
         \<and> this_stack (final (aggregate cfg g result rs st))
             = Some (q @ units_from g (length (articles st)) (take (aggregated_count result rs) rs))
         \<and> executed (final (aggregate cfg g result rs st)) = executed st
         \<and> (threw (aggregate cfg g result rs st) \<longleftrightarrow> aggregated_count result rs < length rs)))
   \<and> (aggregated_count result rs = length rs
        \<longleftrightarrow> length rs \<le> length result \<and> (\<forall>i < length rs. aggregable (result ! i) (rs ! i)))
   \<and> ((\<exists>article. make_article cfg hit section_hits = Inr article) \<longleftrightarrow> aggregable hit section_hits)
   \<and> ((\<exists>node. render_section cfg s = Inr node) \<longleftrightarrow> section_renders s)
   \<and> (\<exists>ex lost. executed (final (eager_drain cfg L st)) = executed st @ ex
         \<and> pending st = ex @ lost @ pending (final (eager_drain cfg L st))
         \<and> (\<not> threw (eager_drain cfg L st) \<longrightarrow> lost = []))
   \<and> (\<exists>ex lost. executed (final (scroll_handler cfg L y st)) = executed st @ ex
         \<and> pending st = ex @ lost @ pending (final (scroll_handler cfg L y st))
         \<and> (\<not> threw (scroll_handler cfg L y st) \<longrightarrow> lost = []))
   \<and> (this_stack st \<noteq> None \<longrightarrow>
        (\<exists>k. final (eager_drain cfg L st) = shifts cfg k st
           \<and> (\<forall>j < k. pending (shifts cfg j st) \<noteq> [] \<and> has_room L (shifts cfg j st))
           \<and> (\<forall>j. Suc j < k \<longrightarrow> \<not> threw (shift cfg (shifts cfg j st)))
           \<and> (threw (eager_drain cfg L st)
                \<longleftrightarrow> 0 < k \<and> threw (shift cfg (shifts cfg (k - 1) st)))
           \<and> (\<not> threw (eager_drain cfg L st)
                \<longrightarrow> pending (shifts cfg k st) = [] \<or> \<not> has_room L (shifts cfg k st))))
   \<and> (this_stack st \<noteq> None \<longrightarrow>
        (\<exists>k. final (scroll_handler cfg L y st) = batches cfg k st
           \<and> (\<forall>j < k. pending (batches cfg j st) \<noteq> [] \<and> near_bottom L y (batches cfg j st))
           \<and> (\<forall>j. Suc j < k \<longrightarrow> \<not> threw (batch cfg (batches cfg j st)))
           \<and> (threw (scroll_handler cfg L y st)
                \<longleftrightarrow> 0 < k \<and> threw (batch cfg (batches cfg (k - 1) st)))
           \<and> (\<not> threw (scroll_handler cfg L y st)
                \<longrightarrow> pending (batches cfg k st) = [] \<or> \<not> near_bottom L y (batches cfg k st))))
   \<and> sections_follow (units_from g a0 rs)
   \<and> sections_follow (executed (run cfg L evs (initial_state cfg)))
   \<and> ((\<forall>e \<in> set evs. sections_render cfg e) \<longrightarrow>
        documents_first [] (executed (run cfg L evs (initial_state cfg))))"
proof (intro conjI)
  show "this_stack st = Some q \<longrightarrow>
      (\<exists>arts. articles (final (aggregate cfg g result rs st)) = articles st @ arts
         \<and> length arts = aggregated_count result rs
         \<and> (\<forall>i < aggregated_count result rs.
               make_article cfg (result ! i) (rs ! i) = Inr (arts ! i))
         \<and> this_stack (final (aggregate cfg g result rs st))
             = Some (q @ units_from g (length (articles st)) (take (aggregated_count result rs) rs))
         \<and> executed (final (aggregate cfg g result rs st)) = executed st
         \<and> (threw (aggregate cfg g result rs st) \<longleftrightarrow> aggregated_count result rs < length rs))"
    using aggregate_exact [of st q cfg g result rs] by blast
next
  show "aggregated_count result rs = length rs
        \<longleftrightarrow> length rs \<le> length result \<and> (\<forall>i < length rs. aggregable (result ! i) (rs ! i))"
    by (rule aggregated_count_full)
next
  show "(\<exists>article. make_article cfg hit section_hits = Inr article) \<longleftrightarrow> aggregable hit section_hits"
  proof
    assume "\<exists>article. make_article cfg hit section_hits = Inr article"
    then obtain article where a: "make_article cfg hit section_hits = Inr article" by blast
    show "aggregable hit section_hits"
    proof (rule ccontr)
      assume "\<not> aggregable hit section_hits"
      then have "make_article cfg hit section_hits = Inl TypeError"
        by (rule make_article_throws)
      with a show False by simp
    qed
  next
    assume "aggregable hit section_hits"
    then show "\<exists>article. make_article cfg hit section_hits = Inr article"
      by (rule make_article_returns)
  qed
next
  show "(\<exists>node. render_section cfg s = Inr node) \<longleftrightarrow> section_renders s"
    by (rule render_section_renders)
next
  show "\<exists>ex lost. executed (final (eager_drain cfg L st)) = executed st @ ex
         \<and> pending st = ex @ lost @ pending (final (eager_drain cfg L st))
         \<and> (\<not> threw (eager_drain cfg L st) \<longrightarrow> lost = [])"
    using eager_drain_trace [of cfg L st] by blast
next
  show "\<exists>ex lost. executed (final (scroll_handler cfg L y st)) = executed st @ ex
         \<and> pending st = ex @ lost @ pending (final (scroll_handler cfg L y st))
         \<and> (\<not> threw (scroll_handler cfg L y st) \<longrightarrow> lost = [])"
    using scroll_handler_trace [of cfg L y st] by blast
next
  show "this_stack st \<noteq> None \<longrightarrow>
        (\<exists>k. final (eager_drain cfg L st) = shifts cfg k st
           \<and> (\<forall>j < k. pending (shifts cfg j st) \<noteq> [] \<and> has_room L (shifts cfg j st))
           \<and> (\<forall>j. Suc j < k \<longrightarrow> \<not> threw (shift cfg (shifts cfg j st)))
           \<and> (threw (eager_drain cfg L st)
                \<longleftrightarrow> 0 < k \<and> threw (shift cfg (shifts cfg (k - 1) st)))
           \<and> (\<not> threw (eager_drain cfg L st)
                \<longrightarrow> pending (shifts cfg k st) = [] \<or> \<not> has_room L (shifts cfg k st)))"
    using eager_drain_exact [of st cfg L] by blast
next
  show "this_stack st \<noteq> None \<longrightarrow>
        (\<exists>k. final (scroll_handler cfg L y st) = batches cfg k st
           \<and> (\<forall>j < k. pending (batches cfg j st) \<noteq> [] \<and> near_bottom L y (batches cfg j st))
           \<and> (\<forall>j. Suc j < k \<longrightarrow> \<not> threw (batch cfg (batches cfg j st)))
           \<and> (threw (scroll_handler cfg L y st)
                \<longleftrightarrow> 0 < k \<and> threw (batch cfg (batches cfg (k - 1) st)))
           \<and> (\<not> threw (scroll_handler cfg L y st)
                \<longrightarrow> pending (batches cfg k st) = [] \<or> \<not> near_bottom L y (batches cfg k st)))"
    using scroll_handler_exact [of st cfg L y] by blast
next
  show "sections_follow (units_from g a0 rs)"
    by (rule sections_follow_units_from)
next
  have "trace_inv (run cfg L evs (initial_state cfg))"
    using trace_inv_initial by (rule trace_inv_run)
  then show "sections_follow (executed (run cfg L evs (initial_state cfg)))"
    by (simp add: trace_inv_def sections_follow_append)
next
  show "(\<forall>e \<in> set evs. sections_render cfg e) \<longrightarrow>
        documents_first [] (executed (run cfg L evs (initial_state cfg)))"
  proof
    assume "\<forall>e \<in> set evs. sections_render cfg e"
    with order_inv_initial have "order_inv cfg (run cfg L evs (initial_state cfg))"
      by (rule order_inv_run)
    then show "documents_first [] (executed (run cfg L evs (initial_state cfg)))"
      unfolding order_inv_def by (rule conjE) (rule documents_first_prefix)
  qed
qed

theorem render_units_in_order_witness:
  "this_stack (final (aggregate example_config 1 two_docs short_response first_response))
     = Some [DocumentUnit 1 0,
             SectionUnit 1 0 (example_section ''Intro'' (Some [''a''])),
             SectionUnit 1 0 (example_section ''Usage'' None),
             DocumentUnit 1 1,
             SectionUnit 1 1 (example_section ''Install'' None)]
   \<and> \<not> threw (aggregate example_config 1 two_docs short_response first_response)
   \<and> sections_follow (executed (run example_config example_layout
        [focus, keyup ''a'', Stage1Done (Inr \<lparr>hits = two_docs, total = 2\<rparr>),
         Stage2Done 1 two_docs (Inr short_response), Scroll 0]
        (initial_state example_config)))
   \<and> documents_first [] (executed (run example_config example_layout
        [focus, keyup ''a'', Stage1Done (Inr \<lparr>hits = two_docs, total = 2\<rparr>),
         Stage2Done 1 two_docs (Inr short_response), Scroll 0]
        (initial_state example_config)))"
proof -
  let ?evs = "[focus, keyup ''a'', Stage1Done (Inr \<lparr>hits = two_docs, total = 2\<rparr>),
         Stage2Done 1 two_docs (Inr short_response), Scroll 0]"
  note t = render_units_in_order [where cfg = example_config and g = 1 and result = two_docs
      and rs = short_response and st = first_response and q = "[]" and L = example_layout
      and evs = ?evs]
  have s: "this_stack first_response = Some []" "length (articles first_response) = 0"
    by code_simp+
  have al: "length short_response \<le> length two_docs
      \<and> (\<forall>i < length short_response. aggregable (two_docs ! i) (short_response ! i))"
    by (simp add: short_response_def two_docs_def aggregable_def example_doc_def
        example_section_def less_Suc_eq_0_disj numeral_2_eq_2)
  then have c: "aggregated_count two_docs short_response = length short_response"
    using t by blast
  have "this_stack (final (aggregate example_config 1 two_docs short_response first_response))
          = Some ([] @ units_from 1 (length (articles first_response))
                         (take (aggregated_count two_docs short_response) short_response))
        \<and> (threw (aggregate example_config 1 two_docs short_response first_response)
             \<longleftrightarrow> aggregated_count two_docs short_response < length short_response)"
    using t s(1) by blast
  then have "this_stack (final (aggregate example_config 1 two_docs short_response first_response))
          = Some (units_from 1 0 short_response)
        \<and> \<not> threw (aggregate example_config 1 two_docs short_response first_response)"
    using c s(2) by simp
  moreover have "units_from 1 0 short_response
     = [DocumentUnit 1 0,
             SectionUnit 1 0 (example_section ''Intro'' (Some [''a''])),
             SectionUnit 1 0 (example_section ''Usage'' None),
             DocumentUnit 1 1,
             SectionUnit 1 1 (example_section ''Install'' None)]"
    by (simp add: short_response_def)
  moreover have "sections_follow (executed (run example_config example_layout ?evs
                   (initial_state example_config)))"
    using t by blast
  moreover have "\<forall>e \<in> set ?evs. sections_render example_config e"
    by (simp add: focus_def keyup_def render_section_def example_section_def short_response_def
        first_fragment_def)
  then have "documents_first [] (executed (run example_config example_layout ?evs
                   (initial_state example_config)))"
    using t by blast
  ultimately show ?thesis by simp
qed

section \<open>Teaser selection\<close>

text \<open>
  C2 (as stated, refuted). Two sections share the title of the document and both carry a
  highlighted fragment: the teaser is the fragment of the second, not of the first.
\<close>

theorem teaser_first_wins_counterexample:
  "teaser_candidates ''Intro''
       [example_section ''Intro'' (Some [''first'']), example_section ''Intro'' (Some [''second''])]
     = [example_section ''Intro'' (Some [''first'']), example_section ''Intro'' (Some [''second''])]
   \<and> highlighted_text (example_section ''Intro'' (Some [''first''])) = Some ''first''
   \<and> map_sum id an_teaser (make_article example_config (example_doc ''1'' ''Intro'')
       [example_section ''Intro'' (Some [''first'']), example_section ''Intro'' (Some [''second''])])
     = Inr (Some ''second'')"
  by code_simp

text \<open>
  C2 (amended). The teaser is selected by title equality. Among the sections of the
  batch whose title equals the title of the document hit and whose highlighted text is
  present, the last one in response order wins: the teaser is its first fragment, when
  that is a non-empty string. Without such a section, or when that fragment is empty or
  missing, the document unit has no teaser. (This holds when the hit has a
  \<^verbatim>\<open>highlight\<close> object and so has every section with the title of the document;
  otherwise the aggregation throws.)
\<close>

theorem teaser_last_wins:
  "hit_highlight hit \<noteq> None \<Longrightarrow>
   \<forall>s \<in> set section_hits. sec_title s = source_title hit \<longrightarrow> sec_highlight s \<noteq> None \<Longrightarrow>
   \<exists>article. make_article cfg hit section_hits = Inr article
     \<and> an_teaser article =
         (if teaser_candidates (source_title hit) section_hits = [] then None
          else if truthy (highlighted_text (last (teaser_candidates (source_title hit) section_hits)))
          then highlighted_text (last (teaser_candidates (source_title hit) section_hits))
          else None)"
proof -
  assume h: "hit_highlight hit \<noteq> None"
    and s: "\<forall>s \<in> set section_hits. sec_title s = source_title hit \<longrightarrow> sec_highlight s \<noteq> None"
  from h obtain hl where hl: "hit_highlight hit = Some hl" by auto
  have "find_teaser (source_title hit) section_hits (Some [])
          = Inr (if teaser_candidates (source_title hit) section_hits = [] then Some []
                 else highlighted_text (last (teaser_candidates (source_title hit) section_hits)))"
    using s by (rule find_teaser_total)
  with hl show ?thesis
    by (simp add: make_article_def Let_def truthy_def)
qed

theorem teaser_last_wins_witness:
  "\<exists>article. make_article example_config (example_doc ''1'' ''Intro'')
        [example_section ''Intro'' (Some [''first'']), example_section ''Other'' (Some [''x'']),
         example_section ''Intro'' (Some [''second'']), example_section ''Intro'' None] = Inr article
     \<and> an_teaser article = Some ''second''"
proof -
  let ?hit = "example_doc ''1'' ''Intro''"
  let ?secs = "[example_section ''Intro'' (Some [''first'']), example_section ''Other'' (Some [''x'']),
         example_section ''Intro'' (Some [''second'']), example_section ''Intro'' None]"
  have a: "hit_highlight ?hit \<noteq> None" by (simp add: example_doc_def)
  have b: "\<forall>s \<in> set ?secs. sec_title s = source_title ?hit \<longrightarrow> sec_highlight s \<noteq> None"
    by (simp add: example_section_def)
  have c: "teaser_candidates (source_title ?hit) ?secs
             = [example_section ''Intro'' (Some [''first'']), example_section ''Intro'' (Some [''second''])]"
    by (simp add: teaser_candidates_def carries_fragment_def example_section_def example_doc_def)
  have d: "highlighted_text (example_section ''Intro'' (Some [''second''])) = Some ''second''"
    by (simp add: highlighted_text_def example_section_def first_fragment_def)
  show ?thesis
    using teaser_last_wins [OF a b, of example_config] by (simp add: c d truthy_def)
qed

section \<open>Lazy drain on scroll\<close>

text \<open>
  C3 (as stated, refuted). A search with 26 hits has painted 14 articles and left 12
  units pending; a keystroke has cleared the list. One scroll event at position 0 then
  executes all 12 pending units, not 10: after the first batch of 10 the content is still
  shorter than the container, so the loop of the listener takes a second batch.
\<close>

theorem scroll_batch_counterexample:
  "length (pending after_new_input) = 12
   \<and> near_bottom example_layout 0 after_new_input
   \<and> pending (step example_config example_layout after_new_input (Scroll 0)) = []
   \<and> executed (step example_config example_layout after_new_input (Scroll 0))
       = executed after_new_input @ pending after_new_input"
proof -
  have eq: "after_new_input =
     \<lparr>this_initialized = True, this_value = Some ''ab'',
      this_stack = Some (map (DocumentUnit 1) [14..<26]),
      this_meta = ''26 matching documents'', this_list = [],
      articles = map (\<lambda>i. \<lparr>an_href = ''/docs/Page '' @ decimal i @ ''/'',
                             an_title = ''Page '' @ decimal i,
                             an_heading = Some (''<em>Page '' @ decimal i @ ''</em>''),
                             an_teaser = None, an_sections = []\<rparr>) [0..<26],
      scroll_bound = True, console = [],
      executed = map (DocumentUnit 1) [0..<14]\<rparr>"
    by code_simp
  show ?thesis
    unfolding eq by code_simp
qed

text \<open>
  C3 (amended). On a scroll event with the stack defined, the listener takes batches:
  each batch removes the first ten pending units (all of them, if fewer) and then
  executes them in order. The event is exactly \<open>k\<close> batches, where before each of them
  the stack was non-empty and the position within 16 units of the bottom, and no batch
  but the last threw. It ends by returning in the first state in which the stack is empty
  or the position is no longer within 16 units of the bottom, or by throwing with the
  batch that threw. When every pending unit renders, nothing throws and \<open>j\<close> batches
  remove and execute exactly the first \<open>10 * j\<close> units. In particular, with 12 pending
  units that render, a position within the slack at the event and no longer within it
  after the first batch, one event removes and executes exactly 10 units and leaves 2.
\<close>

theorem scroll_drains_in_batches:
  "this_stack st = Some q \<Longrightarrow>
   (\<exists>k. final (scroll_handler cfg L y st) = batches cfg k st
      \<and> (\<forall>j < k. pending (batches cfg j st) \<noteq> [] \<and> near_bottom L y (batches cfg j st))
      \<and> (\<forall>j. Suc j < k \<longrightarrow> \<not> threw (batch cfg (batches cfg j st)))
      \<and> (threw (scroll_handler cfg L y st)
           \<longleftrightarrow> 0 < k \<and> threw (batch cfg (batches cfg (k - 1) st)))
      \<and> (\<not> threw (scroll_handler cfg L y st)
           \<longrightarrow> pending (batches cfg k st) = [] \<or> \<not> near_bottom L y (batches cfg k st)))
   \<and> batch cfg st
       = forEach_render cfg (take 10 q) (st\<lparr>this_stack := Some (drop 10 q)\<rparr>)
   \<and> ((\<forall>u \<in> set q. renders cfg u) \<longrightarrow>
        \<not> threw (scroll_handler cfg L y st)
        \<and> (\<forall>j. this_stack (batches cfg j st) = Some (drop (10 * j) q)
               \<and> executed (batches cfg j st) = executed st @ take (10 * j) q))
   \<and> (length q = 12 \<and> (\<forall>u \<in> set q. renders cfg u) \<and> near_bottom L y st
        \<and> \<not> near_bottom L y (batches cfg 1 st)
      \<longrightarrow> scroll_handler cfg L y st = Done (batches cfg 1 st)
          \<and> this_stack (batches cfg 1 st) = Some (drop 10 q) \<and> length (drop 10 q) = 2
          \<and> executed (batches cfg 1 st) = executed st @ take 10 q \<and> length (take 10 q) = 10)"
proof -
  assume s: "this_stack st = Some q"
  then have ne: "this_stack st \<noteq> None" by simp
  from scroll_handler_exact [OF ne, of cfg L y] obtain k where
    k: "final (scroll_handler cfg L y st) = batches cfg k st"
       "\<forall>j < k. pending (batches cfg j st) \<noteq> [] \<and> near_bottom L y (batches cfg j st)"
       "\<forall>j. Suc j < k \<longrightarrow> \<not> threw (batch cfg (batches cfg j st))"
       "threw (scroll_handler cfg L y st)
          \<longleftrightarrow> 0 < k \<and> threw (batch cfg (batches cfg (k - 1) st))"
       "\<not> threw (scroll_handler cfg L y st)
          \<longrightarrow> pending (batches cfg k st) = [] \<or> \<not> near_bottom L y (batches cfg k st)"
    by blast
  have b: "batch cfg st
       = forEach_render cfg (take 10 q) (st\<lparr>this_stack := Some (drop 10 q)\<rparr>)"
    using s by (simp add: batch_def pending_def)
  have r: "\<not> threw (scroll_handler cfg L y st)
        \<and> (\<forall>j. this_stack (batches cfg j st) = Some (drop (10 * j) q)
               \<and> executed (batches cfg j st) = executed st @ take (10 * j) q)"
    if a: "\<forall>u \<in> set q. renders cfg u"
    using k(4) batches_renders [OF s a] by blast
  have t: "scroll_handler cfg L y st = Done (batches cfg 1 st)
          \<and> this_stack (batches cfg 1 st) = Some (drop 10 q) \<and> length (drop 10 q) = 2
          \<and> executed (batches cfg 1 st) = executed st @ take 10 q \<and> length (take 10 q) = 10"
    if h: "length q = 12 \<and> (\<forall>u \<in> set q. renders cfg u) \<and> near_bottom L y st
        \<and> \<not> near_bottom L y (batches cfg 1 st)"
  proof -
    from h have a: "\<forall>u \<in> set q. renders cfg u" by simp
    have nt: "\<not> threw (scroll_handler cfg L y st)" using r [OF a] by simp
    have "k \<noteq> 0"
    proof
      assume "k = 0"
      with k(5) nt have "pending st = [] \<or> \<not> near_bottom L y st" by simp
      with h s show False by (auto simp: pending_def)
    qed
    moreover have "\<not> 1 < k"
    proof
      assume "1 < k"
      with k(2) have "near_bottom L y (batches cfg 1 st)" by blast
      with h show False by simp
    qed
    ultimately have "k = 1" by simp
    with k(1) nt have "scroll_handler cfg L y st = Done (batches cfg 1 st)"
      by (cases "scroll_handler cfg L y st") simp_all
    moreover have "this_stack (batches cfg 1 st) = Some (drop (10 * 1) q)
        \<and> executed (batches cfg 1 st) = executed st @ take (10 * 1) q"
      using r [OF a] by blast
    ultimately show ?thesis using h by simp
  qed
  show ?thesis
    using k b r t by blast
qed

theorem scroll_drains_in_batches_witness:
  "scroll_handler example_config example_layout 20 after_first_search
     = Done (batches example_config 1 after_first_search)
   \<and> pending after_first_search = map (DocumentUnit 1) [14..<26]
   \<and> pending (batches example_config 1 after_first_search)
       = [DocumentUnit 1 24, DocumentUnit 1 25]
   \<and> executed (batches example_config 1 after_first_search) = map (DocumentUnit 1) [0..<24]"
proof -
  let ?q = "map (DocumentUnit 1) [14..<26]"
  have eq: "after_first_search =
     \<lparr>this_initialized = True, this_value = Some ''a'',
      this_stack = Some (map (DocumentUnit 1) [14..<26]),
      this_meta = ''26 matching documents'', this_list = [0..<14],
      articles = map (\<lambda>i. \<lparr>an_href = ''/docs/Page '' @ decimal i @ ''/'',
                             an_title = ''Page '' @ decimal i,
                             an_heading = Some (''<em>Page '' @ decimal i @ ''</em>''),
                             an_teaser = None, an_sections = []\<rparr>) [0..<26],
      scroll_bound = True, console = [],
      executed = map (DocumentUnit 1) [0..<14]\<rparr>"
    by code_simp
  have s: "this_stack after_first_search = Some ?q"
    unfolding eq by simp
  have r: "\<forall>u \<in> set ?q. renders example_config u"
    by auto
  have h: "length ?q = 12 \<and> near_bottom example_layout 20 after_first_search
        \<and> \<not> near_bottom example_layout 20 (batches example_config 1 after_first_search)"
    unfolding eq by code_simp
  from scroll_drains_in_batches [OF s, of example_config example_layout 20] r h
  have "scroll_handler example_config example_layout 20 after_first_search
          = Done (batches example_config 1 after_first_search)
        \<and> this_stack (batches example_config 1 after_first_search) = Some (drop 10 ?q)
        \<and> executed (batches example_config 1 after_first_search)
            = executed after_first_search @ take 10 ?q"
    by blast
  moreover have "drop 10 ?q = [DocumentUnit 1 24, DocumentUnit 1 25]"
    by code_simp
  moreover have "executed after_first_search @ take 10 ?q = map (DocumentUnit 1) [0..<24]"
    unfolding eq by code_simp
  ultimately show ?thesis
    using s by (simp add: pending_def)
qed

section \<open>Failed queries\<close>

text \<open>
  C4 (as stated, refuted). One search has painted its result; the next keystroke
  dispatches a query that fails. The painted article is gone: \<^verbatim>\<open>update\<close> cleared the list
  when it dispatched the query. The metadata text still reports the earlier search.
\<close>

theorem failed_query_keeps_results_counterexample:
  "this_list (run example_config example_layout
       [focus, keyup ''a'',
        Stage1Done (Inr \<lparr>hits = [example_doc ''1'' ''Intro''], total = 1\<rparr>),
        Stage2Done 1 [example_doc ''1'' ''Intro''] (Inr [[]])]
       (initial_state example_config)) = [0]
   \<and> this_list (run example_config example_layout
       [focus, keyup ''a'',
        Stage1Done (Inr \<lparr>hits = [example_doc ''1'' ''Intro''], total = 1\<rparr>),
        Stage2Done 1 [example_doc ''1'' ''Intro''] (Inr [[]]),
        keyup ''ab'', Stage1Done (Inl QueryFailed)]
       (initial_state example_config)) = []
   \<and> this_meta (run example_config example_layout
       [focus, keyup ''a'',
        Stage1Done (Inr \<lparr>hits = [example_doc ''1'' ''Intro''], total = 1\<rparr>),
        Stage2Done 1 [example_doc ''1'' ''Intro''] (Inr [[]]),
        keyup ''ab'', Stage1Done (Inl QueryFailed)]
       (initial_state example_config)) = ''1 matching document''"
  by code_simp

text \<open>
  C4 (amended). When the stage-1 query completes with an error, the completion changes
  neither the metadata text, nor the stack, nor the result list, nor any article, and
  issues no stage-2 call. The result list it leaves as it is had been cleared when the
  query was dispatched: over the whole cycle, from an accepted non-empty input to the
  failure, the list ends empty, while the metadata text and the pending units of the
  search before remain.
\<close>

theorem failed_query_leaves_state:
  "this_meta (final (fst (performElasticSearchQuery cfg (Inl err) st))) = this_meta st
   \<and> this_stack (final (fst (performElasticSearchQuery cfg (Inl err) st))) = this_stack st
   \<and> this_list (final (fst (performElasticSearchQuery cfg (Inl err) st))) = this_list st
   \<and> articles (final (fst (performElasticSearchQuery cfg (Inl err) st))) = articles st
   \<and> executed (final (fst (performElasticSearchQuery cfg (Inl err) st))) = executed st
   \<and> snd (performElasticSearchQuery cfg (Inl err) st) = None
   \<and> (this_initialized st \<and> (ev_type ev = Focus \<or> ev_type ev = Keyup) \<and> ev_target ev = Some v
        \<and> v \<noteq> [] \<and> this_value st \<noteq> Some v \<longrightarrow>
        snd (update cfg ev st) = Some (buildElasticSearchQuery v)
        \<and> this_list (final (fst (performElasticSearchQuery cfg (Inl err)
              (final (fst (update cfg ev st)))))) = []
        \<and> this_meta (final (fst (performElasticSearchQuery cfg (Inl err)
              (final (fst (update cfg ev st)))))) = this_meta st
        \<and> this_stack (final (fst (performElasticSearchQuery cfg (Inl err)
              (final (fst (update cfg ev st)))))) = this_stack st)"
proof -
  have cb: "this_meta (final (fst (performElasticSearchQuery cfg (Inl err) s))) = this_meta s
   \<and> this_stack (final (fst (performElasticSearchQuery cfg (Inl err) s))) = this_stack s
   \<and> this_list (final (fst (performElasticSearchQuery cfg (Inl err) s))) = this_list s
   \<and> articles (final (fst (performElasticSearchQuery cfg (Inl err) s))) = articles s
   \<and> executed (final (fst (performElasticSearchQuery cfg (Inl err) s))) = executed s
   \<and> snd (performElasticSearchQuery cfg (Inl err) s) = None" for s
    by (simp add: performElasticSearchQuery_def stage1_callback_def split: option.splits)
  have cycle: "snd (update cfg ev st) = Some (buildElasticSearchQuery v)
        \<and> this_list (final (fst (performElasticSearchQuery cfg (Inl err)
              (final (fst (update cfg ev st)))))) = []
        \<and> this_meta (final (fst (performElasticSearchQuery cfg (Inl err)
              (final (fst (update cfg ev st)))))) = this_meta st
        \<and> this_stack (final (fst (performElasticSearchQuery cfg (Inl err)
              (final (fst (update cfg ev st)))))) = this_stack st"
    if h: "this_initialized st \<and> (ev_type ev = Focus \<or> ev_type ev = Keyup) \<and> ev_target ev = Some v
        \<and> v \<noteq> [] \<and> this_value st \<noteq> Some v"
  proof -
    from h have ne: "Some v \<noteq> this_value st" by auto
    with h have u: "update cfg ev st
              = (Done (st\<lparr>this_list := [], this_value := Some v\<rparr>),
                 Some (buildElasticSearchQuery v))"
      by (auto simp: update_def Let_def)
    show ?thesis
      unfolding u using cb [of "st\<lparr>this_list := [], this_value := Some v\<rparr>"] by simp
  qed
  show ?thesis
    using cb [of st] cycle by blast
qed

theorem failed_query_leaves_state_witness:
  "this_list (final (fst (performElasticSearchQuery example_config (Inl QueryFailed)
      (final (fst (update example_config \<lparr>ev_type = Keyup, ev_target = Some ''ab''\<rparr>
         ((initial_state example_config)
            \<lparr>this_initialized := True, this_value := Some ''a'', this_list := [0],
              articles := [blank_article], this_meta := ''1 matching document''\<rparr>))))))) = []
   \<and> this_meta (final (fst (performElasticSearchQuery example_config (Inl QueryFailed)
      (final (fst (update example_config \<lparr>ev_type = Keyup, ev_target = Some ''ab''\<rparr>
         ((initial_state example_config)
            \<lparr>this_initialized := True, this_value := Some ''a'', this_list := [0],
              articles := [blank_article], this_meta := ''1 matching document''\<rparr>)))))))
       = ''1 matching document''"
proof -
  let ?st = "(initial_state example_config)
            \<lparr>this_initialized := True, this_value := Some ''a'', this_list := [0],
              articles := [blank_article], this_meta := ''1 matching document''\<rparr>"
  let ?ev = "\<lparr>ev_type = Keyup, ev_target = Some ''ab''\<rparr>"
  have hyp: "this_initialized ?st \<and> (ev_type ?ev = Focus \<or> ev_type ?ev = Keyup)
      \<and> ev_target ?ev = Some ''ab'' \<and> ''ab'' \<noteq> [] \<and> this_value ?st \<noteq> Some ''ab''"
    by simp
  show ?thesis
    using failed_query_leaves_state [where cfg = example_config and st = ?st and ev = ?ev
        and v = "''ab''" and err = QueryFailed] hyp
    by simp
qed

section \<open>Overlapping searches\<close>

lemma no_pending_drained:
  "no_pending g st \<Longrightarrow> executed st' = executed st @ ex \<Longrightarrow> pending st = ex @ lost @ pending st' \<Longrightarrow>
   (\<forall>u \<in> set ex. unit_search u \<noteq> g) \<and> no_pending g st'"
  unfolding no_pending_def by (metis Un_iff set_append)

lemma no_pending_step:
  "no_pending g st \<Longrightarrow> \<not> completes_stage2 g e \<Longrightarrow>
   \<exists>ex. executed (step cfg L st e) = executed st @ ex
     \<and> (\<forall>u \<in> set ex. unit_search u \<noteq> g) \<and> no_pending g (step cfg L st e)"
proof (cases e)
  case (Update ev)
  assume "no_pending g st"
  then show ?thesis
    using Update update_frame [of cfg ev st]
    by (intro exI [of _ "[]"]) (simp add: no_pending_def pending_def)
next
  case (Scroll y)
  assume np: "no_pending g st"
  show ?thesis
  proof (cases "scroll_bound st")
    case False
    with np Scroll show ?thesis by (intro exI [of _ "[]"]) simp
  next
    case True
    obtain ex lost where
      h: "executed (final (scroll_handler cfg L y st)) = executed st @ ex"
         "pending st = ex @ lost @ pending (final (scroll_handler cfg L y st))"
      using scroll_handler_trace [of cfg L y st] by blast
    from no_pending_drained [OF np h] h(1) True Scroll show ?thesis
      by (intro exI [of _ ex]) simp
  qed
next
  case (Stage1Done r)
  assume np: "no_pending g st"
  let ?st' = "final (fst (performElasticSearchQuery cfg r st))"
  have "executed ?st' = executed st" "pending ?st' = pending st \<or> pending ?st' = []"
    using performElasticSearchQuery_frame [of cfg r st] by (auto simp: pending_def)
  with np Stage1Done show ?thesis
    by (intro exI [of _ "[]"]) (auto simp: no_pending_def)
next
  case (Stage2Done g' result r)
  assume np: "no_pending g st" and "\<not> completes_stage2 g e"
  with Stage2Done have ne: "g' \<noteq> g" by simp
  show ?thesis
  proof (cases r)
    case (Inl err)
    with np Stage2Done show ?thesis
      by (intro exI [of _ "[]"]) (simp add: stage2_callback_def no_pending_def pending_def)
  next
    case (Inr rs)
    let ?st1 = "final (aggregate cfg g' result rs st)"
    obtain k where
      k: "pending ?st1 = pending st @ units_from g' (length (articles st)) (take k rs)"
         "executed ?st1 = executed st"
      using aggregate_trace [of rs cfg g' result st] by blast
    have np1: "no_pending g ?st1"
      using np ne k(1) units_from_search [of _ g' "length (articles st)" "take k rs"]
      unfolding no_pending_def by auto
    show ?thesis
    proof (cases "aggregate cfg g' result rs st")
      case (Threw e' st')
      with np1 k(2) Inr Stage2Done show ?thesis
        by (intro exI [of _ "[]"]) (simp add: stage2_callback_def)
    next
      case (Done st1)
      with np1 k(2) have n1: "no_pending g st1" and e1: "executed st1 = executed st" by simp_all
      show ?thesis
      proof (cases "container_is_element cfg")
        case False
        with Done n1 e1 Inr Stage2Done show ?thesis
          by (intro exI [of _ "[]"]) (simp add: stage2_callback_def)
      next
        case True
        obtain ex lost where
          h: "executed (final (eager_drain cfg L st1)) = executed st1 @ ex"
             "pending st1 = ex @ lost @ pending (final (eager_drain cfg L st1))"
          using eager_drain_trace [of cfg L st1] by blast
        from no_pending_drained [OF n1 h] h(1) e1 True Done Inr Stage2Done show ?thesis
          by (intro exI [of _ ex]) (simp add: stage2_callback_def)
      qed
    qed
  qed
qed

lemma no_pending_run:
  "no_pending g st \<Longrightarrow> \<forall>e \<in> set evs. \<not> completes_stage2 g e \<Longrightarrow>
   \<exists>ex. executed (run cfg L evs st) = executed st @ ex
     \<and> (\<forall>u \<in> set ex. unit_search u \<noteq> g) \<and> no_pending g (run cfg L evs st)"
proof (induction evs arbitrary: st)
  case Nil
  then show ?case by (simp add: run_def)
next
  case (Cons e evs)
  from Cons.prems obtain ex1 where
    a: "executed (step cfg L st e) = executed st @ ex1" "\<forall>u \<in> set ex1. unit_search u \<noteq> g"
       "no_pending g (step cfg L st e)"
    using no_pending_step [of g st e cfg L] by auto
  from Cons.IH [OF a(3)] Cons.prems obtain ex2 where
    b: "executed (run cfg L evs (step cfg L st e)) = executed (step cfg L st e) @ ex2"
       "\<forall>u \<in> set ex2. unit_search u \<noteq> g" "no_pending g (run cfg L evs (step cfg L st e))"
    by auto
  have "run cfg L (e # evs) st = run cfg L evs (step cfg L st e)"
    by (simp add: run_def)
  with a b show ?case
    by (intro exI [of _ "ex1 @ ex2"]) auto
qed

text \<open>
  C5 (as stated, refuted). Two searches overlap: the query for \<^verbatim>\<open>"a"\<close> is dispatched
  first, the query for \<^verbatim>\<open>"ab"\<close> second, and the completions of the newer search arrive
  first. When the completions of the older search arrive afterwards, its units are
  pushed and executed: after the units of the newer search (callback 2) have been
  installed and executed, units of the older search (callback 1) are executed.
\<close>

theorem stale_units_counterexample:
  "executed (run example_config example_layout
       [focus, keyup ''a'', keyup ''ab'',
        Stage1Done (Inr \<lparr>hits = [example_doc ''7'' ''Abacus''], total = 1\<rparr>),
        Stage2Done 2 [example_doc ''7'' ''Abacus''] (Inr [[example_section ''Beads'' None]])]
       (initial_state example_config))
     = [DocumentUnit 2 0, SectionUnit 2 0 (example_section ''Beads'' None)]
   \<and> executed (run example_config example_layout
       [focus, keyup ''a'', keyup ''ab'',
        Stage1Done (Inr \<lparr>hits = [example_doc ''7'' ''Abacus''], total = 1\<rparr>),
        Stage2Done 2 [example_doc ''7'' ''Abacus''] (Inr [[example_section ''Beads'' None]]),
        Stage1Done (Inr \<lparr>hits = [example_doc ''3'' ''Atlas''], total = 1\<rparr>),
        Stage2Done 1 [example_doc ''3'' ''Atlas''] (Inr [[example_section ''Maps'' None]])]
       (initial_state example_config))
     = [DocumentUnit 2 0, SectionUnit 2 0 (example_section ''Beads'' None),
        DocumentUnit 1 1, SectionUnit 1 1 (example_section ''Maps'' None)]"
  by code_simp

text \<open>
  C5 (amended). The code has no guard against a late completion; what protects a newer
  search is the reset of the stack. Once a stage-1 completion with a response has
  arrived, no unit of a search \<open>g\<close> is pending, and none is executed by either drain path
  in the sequel, whatever arrives in whatever order, as long as the stage-2 completion of
  \<open>g\<close> does not arrive; the same holds from any state in which no unit of \<open>g\<close> is
  pending. A stage-2 completion of any search, late or not, whose aggregation returns
  pushes its units behind the pending ones and then runs the eager drain on that stack;
  when the container always has room and every unit renders, it executes the units that
  were pending followed by its own.
\<close>

theorem stale_units_not_drained:
  "((\<forall>e \<in> set evs. \<not> completes_stage2 g e) \<longrightarrow>
      (\<exists>ex. executed (run cfg L (Stage1Done (Inr response) # evs) st) = executed st @ ex
         \<and> (\<forall>u \<in> set ex. unit_search u \<noteq> g)))
   \<and> no_pending g (final (fst (performElasticSearchQuery cfg (Inr response) st)))
   \<and> (no_pending g st \<and> (\<forall>e \<in> set evs. \<not> completes_stage2 g e) \<longrightarrow>
        (\<exists>ex. executed (run cfg L evs st) = executed st @ ex
           \<and> (\<forall>u \<in> set ex. unit_search u \<noteq> g) \<and> no_pending g (run cfg L evs st)))
   \<and> (this_stack st = Some q \<and> container_is_element cfg
        \<and> aggregated_count result rs = length rs \<longrightarrow>
        (\<exists>st1. aggregate cfg g result rs st = Done st1
           \<and> this_stack st1 = Some (q @ units_from g (length (articles st)) rs)
           \<and> executed st1 = executed st
           \<and> stage2_callback cfg L g result (Inr rs) st = eager_drain cfg L st1))
   \<and> (this_stack st = Some q \<and> container_is_element cfg
        \<and> aggregated_count result rs = length rs
        \<and> (\<forall>s. has_room L s) \<and> (\<forall>u \<in> set q. renders cfg u)
        \<and> (\<forall>section_hits \<in> set rs. \<forall>s \<in> set section_hits. section_renders s) \<longrightarrow>
        (\<exists>st'. stage2_callback cfg L g result (Inr rs) st = Done st'
           \<and> this_stack st' = Some []
           \<and> executed st' = executed st @ q @ units_from g (length (articles st)) rs))"
proof -
  let ?st1 = "final (fst (performElasticSearchQuery cfg (Inr response) st))"
  have reset: "this_stack ?st1 = Some []"
  proof (cases "stage1_callback cfg (Inr response) st")
    case (Pair out m)
    have s: "this_stack (final (fst (stage1_callback cfg (Inr response) st))) = Some []"
      by (simp add: stage1_callback_def Let_def split: sum.splits)
    show ?thesis
    proof (cases out)
      case (Done st')
      with Pair s show ?thesis by (simp add: performElasticSearchQuery_def)
    next
      case (Threw e st')
      with Pair s have "this_stack st' = Some []" by simp
      moreover have "this_stack (final (fst (stage1_callback cfg (Inl e) st'))) = this_stack st'"
        by (simp add: stage1_callback_def split: option.splits)
      ultimately show ?thesis
        using Pair Threw by (simp add: performElasticSearchQuery_def)
    qed
  qed
  then have np: "no_pending g ?st1"
    by (simp add: no_pending_def pending_def)
  have general: "\<exists>ex. executed (run cfg L evs s0) = executed s0 @ ex
           \<and> (\<forall>u \<in> set ex. unit_search u \<noteq> g) \<and> no_pending g (run cfg L evs s0)"
    if "no_pending g s0 \<and> (\<forall>e \<in> set evs. \<not> completes_stage2 g e)" for s0
    using that no_pending_run [of g s0 evs cfg L] by blast
  have after: "\<exists>ex. executed (run cfg L (Stage1Done (Inr response) # evs) st) = executed st @ ex
         \<and> (\<forall>u \<in> set ex. unit_search u \<noteq> g)"
    if e: "\<forall>e \<in> set evs. \<not> completes_stage2 g e"
  proof -
    have "run cfg L (Stage1Done (Inr response) # evs) st = run cfg L evs ?st1"
      by (simp add: run_def)
    moreover have "executed ?st1 = executed st"
      using performElasticSearchQuery_frame [of cfg "Inr response" st] by simp
    ultimately show ?thesis
      using general [of ?st1] np e by auto
  qed
  have pushed: "\<exists>st1. aggregate cfg g result rs st = Done st1
           \<and> this_stack st1 = Some (q @ units_from g (length (articles st)) rs)
           \<and> executed st1 = executed st
           \<and> stage2_callback cfg L g result (Inr rs) st = eager_drain cfg L st1"
    if h: "this_stack st = Some q \<and> container_is_element cfg
        \<and> aggregated_count result rs = length rs"
  proof -
    from h have s: "this_stack st = Some q" by simp
    from aggregate_exact [OF s, of cfg g result rs] h
    have a: "this_stack (final (aggregate cfg g result rs st))
               = Some (q @ units_from g (length (articles st)) rs)"
      "executed (final (aggregate cfg g result rs st)) = executed st"
      "\<not> threw (aggregate cfg g result rs st)"
      by auto
    from a(3) obtain st1 where d: "aggregate cfg g result rs st = Done st1"
      by (cases "aggregate cfg g result rs st") simp_all
    with a h show ?thesis
      by (simp add: stage2_callback_def)
  qed
  have drained: "\<exists>st'. stage2_callback cfg L g result (Inr rs) st = Done st'
           \<and> this_stack st' = Some []
           \<and> executed st' = executed st @ q @ units_from g (length (articles st)) rs"
    if h: "this_stack st = Some q \<and> container_is_element cfg
        \<and> aggregated_count result rs = length rs
        \<and> (\<forall>s. has_room L s) \<and> (\<forall>u \<in> set q. renders cfg u)
        \<and> (\<forall>section_hits \<in> set rs. \<forall>s \<in> set section_hits. section_renders s)"
  proof -
    from h pushed obtain st1 where
      p: "this_stack st1 = Some (q @ units_from g (length (articles st)) rs)"
         "executed st1 = executed st"
         "stage2_callback cfg L g result (Inr rs) st = eager_drain cfg L st1"
      by blast
    have "\<forall>section_hits \<in> set rs. \<forall>s \<in> set section_hits.
            (case render_section cfg s of Inl e \<Rightarrow> False | Inr n \<Rightarrow> True)"
    proof (intro ballI)
      fix section_hits s assume "section_hits \<in> set rs" "s \<in> set section_hits"
      with h have "section_renders s" by blast
      then obtain node where "render_section cfg s = Inr node"
        using render_section_renders [of cfg s] by blast
      then show "case render_section cfg s of Inl e \<Rightarrow> False | Inr n \<Rightarrow> True" by simp
    qed
    then have "\<forall>u \<in> set (units_from g (length (articles st)) rs). renders cfg u"
      using units_from_renders by blast
    with h have r: "\<forall>u \<in> set (q @ units_from g (length (articles st)) rs). renders cfg u"
      by auto
    from h have room: "\<forall>s. has_room L s" by simp
    from eager_drain_room [OF room p(1) r] p(2,3) show ?thesis by simp
  qed
  show ?thesis
    using after np general [of st] pushed drained by blast
qed

theorem stale_units_not_drained_witness:
  "pending older_pending
     = [DocumentUnit 1 0, SectionUnit 1 0 (example_section ''Maps'' None)]
   \<and> (\<exists>ex. executed (run example_config crowded_layout
              [Stage1Done (Inr \<lparr>hits = [example_doc ''7'' ''Abacus''], total = 1\<rparr>),
               Stage2Done 2 [example_doc ''7'' ''Abacus''] (Inr [[example_section ''Beads'' None]]),
               Scroll 20, Scroll 70]
              older_pending)
            = executed older_pending @ ex
          \<and> (\<forall>u \<in> set ex. unit_search u \<noteq> 1))
   \<and> executed (run example_config crowded_layout
         [Stage1Done (Inr \<lparr>hits = [example_doc ''7'' ''Abacus''], total = 1\<rparr>),
          Stage2Done 2 [example_doc ''7'' ''Abacus''] (Inr [[example_section ''Beads'' None]]),
          Scroll 20, Scroll 70]
         older_pending)
       = [DocumentUnit 2 1, SectionUnit 2 1 (example_section ''Beads'' None)]
   \<and> pending newer_pending
     = [DocumentUnit 2 0, SectionUnit 2 0 (example_section ''Beads'' None)]
   \<and> stage2_callback example_config growing_layout 1 [example_doc ''3'' ''Atlas'']
        (Inr [[example_section ''Maps'' None]]) newer_pending
     = eager_drain example_config growing_layout
         (final (aggregate example_config 1 [example_doc ''3'' ''Atlas'']
            [[example_section ''Maps'' None]] newer_pending))
   \<and> executed (final (stage2_callback example_config growing_layout 1
        [example_doc ''3'' ''Atlas''] (Inr [[example_section ''Maps'' None]]) newer_pending))
     = [DocumentUnit 2 0, SectionUnit 2 0 (example_section ''Beads'' None),
        DocumentUnit 1 1, SectionUnit 1 1 (example_section ''Maps'' None)]"
proof -
  let ?evs = "[Stage2Done 2 [example_doc ''7'' ''Abacus''] (Inr [[example_section ''Beads'' None]]),
               Scroll 20, Scroll 70]"
  let ?resp = "\<lparr>hits = [example_doc ''7'' ''Abacus''], total = 1\<rparr>"
  let ?q = "[DocumentUnit 2 0, SectionUnit 2 0 (example_section ''Beads'' None)]"
  let ?result = "[example_doc ''3'' ''Atlas'']"
  let ?rs = "[[example_section ''Maps'' None]]"
  have o: "pending older_pending
     = [DocumentUnit 1 0, SectionUnit 1 0 (example_section ''Maps'' None)]"
    by code_simp
  have e: "\<forall>e \<in> set ?evs. \<not> completes_stage2 1 e" by simp
  have a: "\<exists>ex. executed (run example_config crowded_layout (Stage1Done (Inr ?resp) # ?evs)
                older_pending) = executed older_pending @ ex
          \<and> (\<forall>u \<in> set ex. unit_search u \<noteq> 1)"
    using stale_units_not_drained [where evs = ?evs and g = 1 and cfg = example_config
        and L = crowded_layout and response = ?resp and st = older_pending] e
    by blast
  have x: "executed (run example_config crowded_layout (Stage1Done (Inr ?resp) # ?evs)
             older_pending)
       = [DocumentUnit 2 1, SectionUnit 2 1 (example_section ''Beads'' None)]"
    by code_simp
  have n: "this_stack newer_pending = Some ?q" "length (articles newer_pending) = 1"
    "executed newer_pending = []"
    by code_simp+
  have h: "this_stack newer_pending = Some ?q \<and> container_is_element example_config
        \<and> aggregated_count ?result ?rs = length ?rs
        \<and> (\<forall>s. has_room growing_layout s) \<and> (\<forall>u \<in> set ?q. renders example_config u)
        \<and> (\<forall>section_hits \<in> set ?rs. \<forall>s \<in> set section_hits. section_renders s)"
    using n(1)
    by (simp add: example_config_def aggregated_count_def aggregable_def example_doc_def
        example_section_def has_room_def growing_layout_def section_renders_def
        render_section_def)
  note t = stale_units_not_drained [where st = newer_pending and q = ?q and cfg = example_config
      and result = ?result and rs = ?rs and L = growing_layout and g = 1]
  from t h obtain st1 where
    p: "aggregate example_config 1 ?result ?rs newer_pending = Done st1"
       "stage2_callback example_config growing_layout 1 ?result (Inr ?rs) newer_pending
          = eager_drain example_config growing_layout st1"
    by blast
  from t h obtain st' where
    d: "stage2_callback example_config growing_layout 1 ?result (Inr ?rs) newer_pending = Done st'"
       "executed st' = executed newer_pending @ ?q
            @ units_from 1 (length (articles newer_pending)) ?rs"
    by blast
  show ?thesis
    using o a x n p d by (simp add: pending_def)
qed

section \<open>Searches without hits, documents without sections\<close>



section \<open>Repeated input and missing highlights\<close>

lemma build_msearch_missing_highlight:
  "hit \<in> set result \<Longrightarrow> hit_highlight hit = None \<Longrightarrow> build_msearch idx v result = Inl TypeError"
proof (induction result)
  case Nil
  then show ?case by simp
next
  case (Cons h result)
  show ?case
  proof (cases "hit_highlight h")
    case None
    then show ?thesis by simp
  next
    case (Some hl)
    with Cons.prems have "hit \<in> set result" by auto
    with Cons have "build_msearch idx v result = Inl TypeError" by simp
    with Some show ?thesis by simp
  qed
qed

text \<open>
  C10. The stage-1 callback reads \<^verbatim>\<open>hit.highlight.title\<close> without checking that
  \<^verbatim>\<open>highlight\<close> exists: when some hit of the response has no \<^verbatim>\<open>highlight\<close> object the
  callback throws a \<open>TypeError\<close>. It has reset the stack by then; it issues no stage-2
  call and does not write the metadata text. The stage-2 aggregation reads the title the
  same way and throws on such a hit as well; neither falls back to the plain title. A hit
  whose \<^verbatim>\<open>highlight\<close> is present but empty does not throw: it only gives the size
  hint 0.
\<close>

theorem stage1_callback_throws_without_highlight:
  "(hit \<in> set (hits response) \<and> hit_highlight hit = None \<longrightarrow>
      stage1_callback cfg (Inr response) st
        = (Threw TypeError (st\<lparr>this_stack := Some []\<rparr>), None))
   \<and> (hit_highlight hit = None \<longrightarrow>
        make_article cfg hit section_hits = Inl TypeError
        \<and> aggregate cfg g (hit # result) (section_hits # rest) st = Threw TypeError st)
   \<and> (hit_highlight hit = Some \<lparr>hl_title = None, hl_text = None\<rparr> \<longrightarrow>
        build_msearch idx v [hit]
          = Inr [Header idx,
                 Body \<lparr>sq_size = 0, sq_parent_id = hit_id hit, sq_query = v,
                       sq_title_boost = 5, sq_text_boost = 3\<rparr>])"
proof (intro conjI impI)
  assume "hit_highlight hit = None"
  then show "make_article cfg hit section_hits = Inl TypeError"
    by (simp add: make_article_def)
  then show "aggregate cfg g (hit # result) (section_hits # rest) st = Threw TypeError st"
    by simp
next
  assume "hit \<in> set (hits response) \<and> hit_highlight hit = None"
  then have "build_msearch (es_index_name cfg) (this_value st) (hits response) = Inl TypeError"
    using build_msearch_missing_highlight by blast
  then show "stage1_callback cfg (Inr response) st
        = (Threw TypeError (st\<lparr>this_stack := Some []\<rparr>), None)"
    by (simp add: stage1_callback_def)
next
  assume "hit_highlight hit = Some \<lparr>hl_title = None, hl_text = None\<rparr>"
  then show "build_msearch idx v [hit]
          = Inr [Header idx,
                 Body \<lparr>sq_size = 0, sq_parent_id = hit_id hit, sq_query = v,
                       sq_title_boost = 5, sq_text_boost = 3\<rparr>]"
    by (simp add: fragment_count_def)
qed

theorem stage1_callback_throws_without_highlight_witness:
  "stage1_callback example_config
     (Inr \<lparr>hits = [example_doc ''1'' ''Intro'', (example_doc ''2'' ''Setup'')\<lparr>hit_highlight := None\<rparr>],
           total = 2\<rparr>)
     (initial_state example_config)
   = (Threw TypeError ((initial_state example_config)\<lparr>this_stack := Some []\<rparr>), None)
   \<and> make_article example_config ((example_doc ''2'' ''Setup'')\<lparr>hit_highlight := None\<rparr>) []
      = Inl TypeError
   \<and> build_msearch ''mkdocs'' (Some ''q'')
        [(example_doc ''2'' ''Setup'')\<lparr>hit_highlight := Some \<lparr>hl_title = None, hl_text = None\<rparr>\<rparr>]
      = Inr [Header ''mkdocs'',
             Body \<lparr>sq_size = 0, sq_parent_id = ''2'', sq_query = Some ''q'',
                   sq_title_boost = 5, sq_text_boost = 3\<rparr>]"
proof -
  let ?bad = "(example_doc ''2'' ''Setup'')\<lparr>hit_highlight := None\<rparr>"
  let ?r = "\<lparr>hits = [example_doc ''1'' ''Intro'', ?bad], total = 2\<rparr>"
  note t = stage1_callback_throws_without_highlight
      [where hit = ?bad and response = ?r and cfg = example_config
         and st = "initial_state example_config" and section_hits = "[]"]
  have bad: "?bad \<in> set (hits ?r) \<and> hit_highlight ?bad = None" by simp
  then have "stage1_callback example_config (Inr ?r) (initial_state example_config)
     = (Threw TypeError ((initial_state example_config)\<lparr>this_stack := Some []\<rparr>), None)"
    using t by blast
  moreover have "make_article example_config ?bad [] = Inl TypeError"
    using t bad by blast
  moreover
  let ?ok = "(example_doc ''2'' ''Setup'')\<lparr>hit_highlight := Some \<lparr>hl_title = None, hl_text = None\<rparr>\<rparr>"
  have "build_msearch ''mkdocs'' (Some ''q'') [?ok]
      = Inr [Header ''mkdocs'',
             Body \<lparr>sq_size = 0, sq_parent_id = hit_id ?ok, sq_query = Some ''q'',
                   sq_title_boost = 5, sq_text_boost = 3\<rparr>]"
    using stage1_callback_throws_without_highlight
      [where hit = ?ok and idx = "''mkdocs''" and v = "Some ''q''"]
    by simp
  ultimately show ?thesis
    by (simp add: example_doc_def)
qed

text \<open>
  C9. Once initialised, a focus or keyup event whose input value equals the last
  accepted value changes nothing and dispatches nothing. Hence, of two consecutive keyup
  events with the same value, the second never dispatches; when the value is non-empty
  and differs from the value accepted before, the first dispatches the query for it, so
  the pair dispatches exactly one query.
\<close>

theorem repeated_input_is_noop:
  "this_initialized st \<Longrightarrow> ev_type ev = Focus \<or> ev_type ev = Keyup \<Longrightarrow> ev_target ev = Some v \<Longrightarrow>
   (this_value st = Some v \<longrightarrow> update cfg ev st = (Done st, None))
   \<and> update cfg ev (final (fst (update cfg ev st))) = (Done (final (fst (update cfg ev st))), None)
   \<and> (v \<noteq> [] \<and> this_value st \<noteq> Some v \<longrightarrow>
        snd (update cfg ev st) = Some (buildElasticSearchQuery v))
   \<and> length (filter (\<lambda>d. d \<noteq> None)
        [snd (update cfg ev st), snd (update cfg ev (final (fst (update cfg ev st))))])
      = (if v \<noteq> [] \<and> this_value st \<noteq> Some v then 1 else 0)"
proof -
  assume i: "this_initialized st" and t: "ev_type ev = Focus \<or> ev_type ev = Keyup"
    and v: "ev_target ev = Some v"
  show ?thesis
  proof (cases "this_value st = Some v")
    case True
    with i t v have "update cfg ev st = (Done st, None)"
      by (auto simp: update_def)
    with True show ?thesis by simp
  next
    case False
    then have ne: "Some v \<noteq> this_value st" by auto
    show ?thesis
    proof (cases "v = []")
      case True
      with i t v ne
      have "update cfg ev st
              = (Done (st\<lparr>this_list := [], this_value := Some v,
                            this_meta := msg_placeholder cfg\<rparr>), None)"
        by (auto simp: update_def Let_def)
      moreover have "update cfg ev (st\<lparr>this_list := [], this_value := Some v,
                            this_meta := msg_placeholder cfg\<rparr>)
              = (Done (st\<lparr>this_list := [], this_value := Some v,
                            this_meta := msg_placeholder cfg\<rparr>), None)"
        using i t v by (auto simp: update_def)
      ultimately show ?thesis using True False by simp
    next
      case nonempty: False
      with i t v ne
      have "update cfg ev st
              = (Done (st\<lparr>this_list := [], this_value := Some v\<rparr>),
                 Some (buildElasticSearchQuery v))"
        by (auto simp: update_def Let_def)
      moreover have "update cfg ev (st\<lparr>this_list := [], this_value := Some v\<rparr>)
              = (Done (st\<lparr>this_list := [], this_value := Some v\<rparr>), None)"
        using i t v by (auto simp: update_def)
      ultimately show ?thesis using nonempty False by simp
    qed
  qed
qed

theorem repeated_input_is_noop_witness:
  "update example_config \<lparr>ev_type = Keyup, ev_target = Some ''ab''\<rparr>
     ((initial_state example_config)\<lparr>this_initialized := True, this_value := Some ''ab''\<rparr>)
   = (Done ((initial_state example_config)\<lparr>this_initialized := True, this_value := Some ''ab''\<rparr>), None)
   \<and> snd (update example_config \<lparr>ev_type = Keyup, ev_target = Some ''ab''\<rparr>
          ((initial_state example_config)\<lparr>this_initialized := True, this_value := Some ''a''\<rparr>))
     = Some (buildElasticSearchQuery ''ab'')
   \<and> length (filter (\<lambda>d. d \<noteq> None)
        [snd (update example_config \<lparr>ev_type = Keyup, ev_target = Some ''ab''\<rparr>
               ((initial_state example_config)\<lparr>this_initialized := True, this_value := Some ''a''\<rparr>)),
         snd (update example_config \<lparr>ev_type = Keyup, ev_target = Some ''ab''\<rparr>
               (final (fst (update example_config \<lparr>ev_type = Keyup, ev_target = Some ''ab''\<rparr>
                  ((initial_state example_config)\<lparr>this_initialized := True, this_value := Some ''a''\<rparr>)))))])
     = 1"
proof -
  let ?ev = "\<lparr>ev_type = Keyup, ev_target = Some ''ab''\<rparr>"
  let ?s1 = "(initial_state example_config)\<lparr>this_initialized := True, this_value := Some ''ab''\<rparr>"
  let ?s2 = "(initial_state example_config)\<lparr>this_initialized := True, this_value := Some ''a''\<rparr>"
  have a: "this_initialized ?s1" "this_initialized ?s2" by simp_all
  have b: "ev_type ?ev = Focus \<or> ev_type ?ev = Keyup" "ev_target ?ev = Some ''ab''" by simp_all
  have "update example_config ?ev ?s1 = (Done ?s1, None)"
    using repeated_input_is_noop [OF a(1) b, of example_config] by simp
  moreover have "snd (update example_config ?ev ?s2) = Some (buildElasticSearchQuery ''ab'')"
    using repeated_input_is_noop [OF a(2) b, of example_config] by simp
  moreover have "length (filter (\<lambda>d. d \<noteq> None)
        [snd (update example_config ?ev ?s2),
         snd (update example_config ?ev (final (fst (update example_config ?ev ?s2))))]) = 1"
    using repeated_input_is_noop [OF a(2) b, of example_config] by simp
  ultimately show ?thesis by blast
qed

end
